theory Spec2Isabelle
  imports Complex_Main "HOL-Library.AList"
begin

section \<open>JavaScript strings and arrays\<close>

text \<open>
  The INI document model of \<^verbatim>\<open>src/unnamed/part_000\<close> (class \<open>IniMap\<close>) is embedded
  function by function. A JavaScript string is a \<^typ>\<open>string\<close>; a \<^typ>\<open>char\<close> stands for
  a UTF-16 code unit below 256, so the development covers the texts whose code units
  all lie in that range. The white space of \<open>String.prototype.trim\<close> and of the
  regular expression class \<open>\S\<close> is the same set (WhiteSpace and LineTerminator of
  ECMAScript); below 256 it is TAB, LF, VT, FF, CR, SP and NBSP.
\<close>

definition is_white_space :: "char \<Rightarrow> bool" where
  "is_white_space c \<longleftrightarrow>
     c \<in> set [CHR 0x09, CHR 0x0A, CHR 0x0B, CHR 0x0C, CHR 0x0D, CHR 0x20, CHR 0xA0]"

definition trim :: "string \<Rightarrow> string" where
  "trim s = rev (dropWhile is_white_space (rev (dropWhile is_white_space s)))"

definition startsWith :: "string \<Rightarrow> string \<Rightarrow> bool" where
  "startsWith s p \<longleftrightarrow> take (length p) s = p"

definition endsWith :: "string \<Rightarrow> string \<Rightarrow> bool" where
  "endsWith s p \<longleftrightarrow> length p \<le> length s \<and> drop (length s - length p) s = p"

definition includes_char :: "string \<Rightarrow> char \<Rightarrow> bool" where
  "includes_char s c \<longleftrightarrow> c \<in> set s"

text \<open>\<open>s.indexOf(c)\<close> for a one-character search string: the first position, or \<open>-1\<close>.\<close>

definition indexOf :: "string \<Rightarrow> char \<Rightarrow> int" where
  "indexOf s c = (if c \<in> set s then int (length (takeWhile (\<lambda>x. x \<noteq> c) s)) else - 1)"

text \<open>
  \<open>substring\<close> clamps both indices to \<open>[0, length]\<close> and swaps them when they are out of
  order; \<open>slice\<close> and \<open>splice\<close> count a negative index from the end and clamp.
\<close>

definition substring :: "string \<Rightarrow> int \<Rightarrow> int \<Rightarrow> string" where
  "substring s a b =
     (let a' = min (nat a) (length s); b' = min (nat b) (length s)
      in take (max a' b' - min a' b') (drop (min a' b') s))"

definition substring_from :: "string \<Rightarrow> int \<Rightarrow> string" where
  "substring_from s a = substring s a (int (length s))"

definition rel_index :: "int \<Rightarrow> nat \<Rightarrow> nat" where
  "rel_index k n = (if k < 0 then nat (max (int n + k) 0) else min (nat k) n)"

definition slice :: "'a list \<Rightarrow> int \<Rightarrow> int \<Rightarrow> 'a list" where
  "slice xs a b =
     (let lo = rel_index a (length xs); hi = rel_index b (length xs)
      in take (hi - lo) (drop lo xs))"

definition slice_from :: "'a list \<Rightarrow> int \<Rightarrow> 'a list" where
  "slice_from xs a = drop (rel_index a (length xs)) xs"

text \<open>\<open>xs.splice(start, 0, x)\<close> and \<open>xs.splice(start, 1)\<close>.\<close>

definition splice_insert :: "'a list \<Rightarrow> int \<Rightarrow> 'a \<Rightarrow> 'a list" where
  "splice_insert xs start x =
     (let i = rel_index start (length xs) in take i xs @ x # drop i xs)"

definition splice_delete :: "'a list \<Rightarrow> int \<Rightarrow> 'a list" where
  "splice_delete xs start =
     (let i = rel_index start (length xs) in take i xs @ drop (Suc i) xs)"

section \<open>Numeric conversion of strings\<close>

text \<open>
  The unary plus of the default reviver is the StringToNumber operation of the language
  (not code of the repository); it is written out here from the StringNumericLiteral
  grammar of ECMAScript. A number is represented by the mathematical value of the
  literal: the rounding to a binary64 value and the sign of zero are not modelled.
\<close>

datatype number = NaN | Finite rat | PosInfinity | NegInfinity

definition isNaN :: "number \<Rightarrow> bool" where
  "isNaN n \<longleftrightarrow> n = NaN"

definition hex_digit :: "char \<Rightarrow> nat option" where
  "hex_digit c =
     (let n = (of_char c :: nat)
      in if 48 \<le> n \<and> n \<le> 57 then Some (n - 48)
         else if 97 \<le> n \<and> n \<le> 102 then Some (n - 87)
         else if 65 \<le> n \<and> n \<le> 70 then Some (n - 55)
         else None)"

definition digit_of :: "nat \<Rightarrow> char \<Rightarrow> nat option" where
  "digit_of base c =
     (case hex_digit c of None \<Rightarrow> None | Some d \<Rightarrow> if d < base then Some d else None)"

fun digits_value :: "nat \<Rightarrow> string \<Rightarrow> nat \<Rightarrow> nat option" where
  "digits_value base [] acc = Some acc"
| "digits_value base (c # cs) acc =
     (case digit_of base c of
        None \<Rightarrow> None
      | Some d \<Rightarrow> digits_value base cs (acc * base + d))"

text \<open>A non-empty run of digits of the base, read as a natural number.\<close>

definition digits :: "nat \<Rightarrow> string \<Rightarrow> nat option" where
  "digits base s = (if s = [] then None else digits_value base s 0)"

definition signed_integer :: "string \<Rightarrow> int option" where
  "signed_integer s =
     (case s of
        [] \<Rightarrow> None
      | c # cs \<Rightarrow>
          if c = CHR ''+'' then map_option int (digits 10 cs)
          else if c = CHR ''-'' then map_option (\<lambda>n. - int n) (digits 10 cs)
          else map_option int (digits 10 s))"

definition scale10 :: "rat \<Rightarrow> int \<Rightarrow> rat" where
  "scale10 m e = (if 0 \<le> e then m * 10 ^ nat e else m / 10 ^ nat (- e))"

text \<open>
  StrUnsignedDecimalLiteral without \<open>Infinity\<close>: digits with an optional fraction, or a
  fraction alone, and an optional exponent part.
\<close>

definition str_unsigned_decimal :: "string \<Rightarrow> rat option" where
  "str_unsigned_decimal s =
     (let not_exp = (\<lambda>c. c \<noteq> CHR ''e'' \<and> c \<noteq> CHR ''E'');
          mant = takeWhile not_exp s;
          ex = dropWhile not_exp s;
          ip = takeWhile (\<lambda>c. c \<noteq> CHR ''.'') mant;
          fr = dropWhile (\<lambda>c. c \<noteq> CHR ''.'') mant;
          fp = tl fr;
          frac = (\<lambda>f. of_nat f / 10 ^ length fp);
          m = (if fr = [] then map_option of_nat (digits 10 ip)
               else if ip = [] then map_option frac (digits 10 fp)
               else (case digits 10 ip of
                       None \<Rightarrow> None
                     | Some i \<Rightarrow>
                         if fp = [] then Some (of_nat i)
                         else map_option (\<lambda>f. of_nat i + frac f) (digits 10 fp)));
          e = (if ex = [] then Some 0 else signed_integer (tl ex))
      in case m of
           None \<Rightarrow> None
         | Some mv \<Rightarrow> (case e of None \<Rightarrow> None | Some ev \<Rightarrow> Some (scale10 mv ev)))"

definition str_unsigned :: "string \<Rightarrow> number option" where
  "str_unsigned s =
     (if s = ''Infinity'' then Some PosInfinity
      else map_option Finite (str_unsigned_decimal s))"

definition negate :: "number \<Rightarrow> number" where
  "negate n =
     (case n of
        NaN \<Rightarrow> NaN
      | Finite q \<Rightarrow> Finite (- q)
      | PosInfinity \<Rightarrow> NegInfinity
      | NegInfinity \<Rightarrow> PosInfinity)"

text \<open>
  StrNumericLiteral: a binary, octal or hexadecimal integer with its prefix and no sign,
  or a decimal literal with an optional sign.
\<close>

definition non_decimal_base :: "string \<Rightarrow> nat option" where
  "non_decimal_base s =
     (case s of
        z # x # _ \<Rightarrow>
          if z \<noteq> CHR ''0'' then None
          else if x = CHR ''b'' \<or> x = CHR ''B'' then Some 2
          else if x = CHR ''o'' \<or> x = CHR ''O'' then Some 8
          else if x = CHR ''x'' \<or> x = CHR ''X'' then Some 16
          else None
      | _ \<Rightarrow> None)"

definition str_numeric_literal :: "string \<Rightarrow> number option" where
  "str_numeric_literal s =
     (case non_decimal_base s of
        Some base \<Rightarrow> map_option (\<lambda>n. Finite (of_nat n)) (digits base (drop 2 s))
      | None \<Rightarrow>
          (case s of
             [] \<Rightarrow> None
           | c # cs \<Rightarrow>
               if c = CHR ''+'' then str_unsigned cs
               else if c = CHR ''-'' then map_option negate (str_unsigned cs)
               else str_unsigned s))"

text \<open>\<open>+value\<close>: white space is stripped, the empty string converts to zero.\<close>

definition to_number :: "string \<Rightarrow> number" where
  "to_number str =
     (let s = trim str
      in if s = [] then Finite 0
         else (case str_numeric_literal s of None \<Rightarrow> NaN | Some n \<Rightarrow> n))"

section \<open>The data model\<close>

text \<open>
  \<open>IniValue\<close> is \<open>string | number | boolean | null | undefined\<close>. A reviver returns
  \<open>unknown\<close> in the source; here it returns an \<open>IniValue\<close>.
\<close>

datatype IniValue = VString string | VNumber number | VBoolean bool | VNull | VUndefined

text \<open>
  The line records are objects shared between the ordered array \<open>#lines\<close> and the maps
  \<open>#global\<close>, \<open>#sections\<close> and \<open>section.map\<close>, and they are mutated in place. They live
  in an explicit store (field \<open>heap\<close> below); a reference is an index of the store.
  A \<open>Map\<close> is an association list in insertion order: \<open>Map.get\<close> is \<^const>\<open>map_of\<close> and
  \<open>Map.set\<close> is \<^const>\<open>AList.update\<close> (an existing key keeps its place).
\<close>

type_synonym ref = nat

datatype Line =
    is_comment: LineComment (num: int) (val_comment: string)
  | is_section: LineSection (num: int) (sec: string) (map_sec: "(string \<times> ref) list")
      (end_sec: int)
  | is_value: LineValue (num: int) (sec_value: "string option") (key: string) (val: IniValue)

fun set_num :: "int \<Rightarrow> Line \<Rightarrow> Line" where
  "set_num n (LineComment _ v) = LineComment n v"
| "set_num n (LineSection _ s mp e) = LineSection n s mp e"
| "set_num n (LineValue _ s k v) = LineValue n s k v"

fun set_end :: "int \<Rightarrow> Line \<Rightarrow> Line" where
  "set_end e (LineSection n s mp _) = LineSection n s mp e"
| "set_end e l = l"

fun set_val :: "IniValue \<Rightarrow> Line \<Rightarrow> Line" where
  "set_val v (LineValue n s k _) = LineValue n s k v"
| "set_val v l = l"

fun map_set :: "string \<Rightarrow> ref \<Rightarrow> Line \<Rightarrow> Line" where
  "map_set k r (LineSection n s mp e) = LineSection n s (AList.update k r mp) e"
| "map_set k r l = l"

definition add_num :: "int \<Rightarrow> Line \<Rightarrow> Line" where
  "add_num d l = set_num (num l + d) l"

definition add_end :: "int \<Rightarrow> Line \<Rightarrow> Line" where
  "add_end d l = set_end (end_sec l + d) l"

datatype line_break = LF | CRLF | CR

record FormattingOptions =
  lineBreak :: "line_break option"
  pretty :: "bool option"

record IniMap =
  global :: "(string \<times> ref) list"
  sections :: "(string \<times> ref) list"
  lines :: "ref list"
  formatting :: FormattingOptions
  heap :: "Line list"

text \<open>\<open>new IniMap(formatting)\<close>; the default argument is the empty options object.\<close>

definition no_formatting :: FormattingOptions where
  "no_formatting = \<lparr>lineBreak = None, pretty = None\<rparr>"

definition new_IniMap :: "FormattingOptions \<Rightarrow> IniMap" where
  "new_IniMap f = \<lparr>global = [], sections = [], lines = [], formatting = f, heap = []\<rparr>"

text \<open>Creating an object: it is stored at the next free index of the store.\<close>

definition alloc :: "Line \<Rightarrow> IniMap \<Rightarrow> IniMap" where
  "alloc l m = m\<lparr>heap := heap m @ [l]\<rparr>"

datatype LineOp = Del | Add

fun op_value :: "LineOp \<Rightarrow> int" where
  "op_value Del = - 1"
| "op_value Add = 1"

text \<open>
  The errors thrown. A message of \<open>parse\<close> is kept in structured form: the token or the
  kind of malformation, and the line number the template interpolates. \<open>parse\<close> itself
  throws only the first kind; a \<open>TypeError\<close> of the language and any other exception are
  kept with their text.
\<close>

datatype message =
    UnexpectedToken string int
  | UnexpectedEndOfSection int
  | UnexpectedEmptySectionName int
  | UnexpectedEmptyKeyName int

datatype error = SyntaxError message | TypeError string | OtherError string

fun message_line :: "message \<Rightarrow> int" where
  "message_line (UnexpectedToken _ n) = n"
| "message_line (UnexpectedEndOfSection n) = n"
| "message_line (UnexpectedEmptySectionName n) = n"
| "message_line (UnexpectedEmptyKeyName n) = n"

section \<open>Helper functions of the module\<close>

definition trimQuotes :: "string \<Rightarrow> string" where
  "trimQuotes v =
     (if startsWith v [CHR 0x22] \<and> endsWith v [CHR 0x22] then slice v 1 (- 1) else v)"

definition isComment :: "string \<Rightarrow> bool" where
  "isComment input \<longleftrightarrow>
     input = [] \<or> startsWith input ''#'' \<or> startsWith input '';'' \<or> startsWith input ''//''"

definition isSection :: "string \<Rightarrow> int \<Rightarrow> error + bool" where
  "isSection input lineNumber =
     (if startsWith input ''[''
      then (if endsWith input '']'' then Inr True
            else Inl (SyntaxError (UnexpectedEndOfSection lineNumber)))
      else Inr False)"

text \<open>\<open>NON_WHITESPACE_REGEXP.test(s)\<close>: some character of \<open>s\<close> is not white space.\<close>

definition has_non_whitespace :: "string \<Rightarrow> bool" where
  "has_non_whitespace s \<longleftrightarrow> list_ex (\<lambda>c. \<not> is_white_space c) s"

type_synonym ReviverFunction = "string \<Rightarrow> string \<Rightarrow> string option \<Rightarrow> IniValue"

definition default_reviver :: ReviverFunction where
  "default_reviver k v s =
     (if \<not> isNaN (to_number v) \<and> \<not> includes_char v (CHR 0x22) then VNumber (to_number v)
      else if v = ''null'' then VNull
      else if v = ''true'' \<or> v = ''false'' then VBoolean (v = ''true'')
      else VString (trimQuotes v))"

section \<open>The class \<open>IniMap\<close>\<close>

subsection \<open>\<open>#getOrCreateSection\<close>\<close>

text \<open>
  Returns the reference of the section record together with the updated state. A record
  found in a map is an object, hence truthy.
\<close>

definition getOrCreateSection :: "string \<Rightarrow> IniMap \<Rightarrow> ref \<times> IniMap" where
  "getOrCreateSection section m =
     (case map_of (sections m) section of
        Some existing \<Rightarrow> (existing, m)
      | None \<Rightarrow>
          (let n = int (length (lines m)) + 1;
               r = length (heap m);
               m1 = alloc (LineSection n section [] n) m
           in (r, m1\<lparr>lines := lines m1 @ [r],
                     sections := AList.update section r (sections m1)\<rparr>)))"

subsection \<open>\<open>#appendOrDeleteLine\<close>\<close>

text \<open>
  The loop over \<open>this.#lines.slice(start)\<close>, a copy of the tail of the array: it
  mutates the records the references point to. \<open>upd\<close> is the flag \<open>updateSection\<close>.
  A section name is tested for truthiness, so the empty name counts as absent.
\<close>

fun shift_lines ::
  "(string \<times> ref) list \<Rightarrow> int \<Rightarrow> ref list \<Rightarrow> bool \<Rightarrow> Line list \<Rightarrow> Line list" where
  "shift_lines secs d [] upd h = h"
| "shift_lines secs d (l # ls) upd h =
     (let h1 = h[l := add_num d (h ! l)];
          h2 = (if is_section (h1 ! l) then h1[l := add_end d (h1 ! l)] else h1);
          upd1 = (if is_section (h1 ! l) then False else upd)
      in if upd1 \<and> is_value (h2 ! l) \<and> sec_value (h2 ! l) \<noteq> None
            \<and> sec_value (h2 ! l) \<noteq> Some []
         then (case map_of secs (the (sec_value (h2 ! l))) of
                 Some section \<Rightarrow>
                   shift_lines secs d ls False (h2[section := add_end d (h2 ! section)])
               | None \<Rightarrow> shift_lines secs d ls upd1 h2)
         else shift_lines secs d ls upd1 h2)"

definition appendOrDeleteLine :: "ref \<Rightarrow> LineOp \<Rightarrow> IniMap \<Rightarrow> IniMap" where
  "appendOrDeleteLine input op m =
     (let inp = heap m ! input;
          lines1 = (if op = Add then splice_insert (lines m) (num inp - 1) input
                    else splice_delete (lines m) (num inp - 1));
          updateSection = is_comment inp;
          start = (if op = Add then num inp else num inp - 1)
      in m\<lparr>lines := lines1,
           heap := shift_lines (sections m) (op_value op) (slice_from lines1 start)
                     updateSection (heap m)\<rparr>)"

subsection \<open>\<open>#appendValue\<close>\<close>

text \<open>The position of the first section record among the lines, counted from \<open>i\<close>.\<close>

fun first_section :: "Line list \<Rightarrow> ref list \<Rightarrow> nat \<Rightarrow> nat option" where
  "first_section h [] i = None"
| "first_section h (l # ls) i =
     (if is_section (h ! l) then Some i else first_section h ls (Suc i))"

definition appendValue :: "ref \<Rightarrow> IniMap \<Rightarrow> IniMap" where
  "appendValue lineValue m =
     (if length (lines m) = 0
      then m\<lparr>heap := (heap m)[lineValue := set_num 1 (heap m ! lineValue)],
             lines := lines m @ [lineValue]\<rparr>
      else if sec_value (heap m ! lineValue) \<noteq> None
              \<and> sec_value (heap m ! lineValue) \<noteq> Some []
      then appendOrDeleteLine lineValue Add m
      else (let n = (case first_section (heap m) (lines m) 0 of
                       Some i \<Rightarrow> int i + 1
                     | None \<Rightarrow> int (length (lines m)) + 1)
            in appendOrDeleteLine lineValue Add
                 (m\<lparr>heap := (heap m)[lineValue := set_num n (heap m ! lineValue)]\<rparr>)))"

subsection \<open>\<open>set\<close>\<close>

text \<open>
  Both overloads share one implementation; an absent third argument is \<open>undefined\<close>.
  The two branches of its conditional are named \<open>set_section\<close> and \<open>set_global\<close>.
\<close>

definition set_section :: "string \<Rightarrow> string \<Rightarrow> IniValue \<Rightarrow> IniMap \<Rightarrow> IniMap" where
  "set_section keyOrSection valueOrKey v m =
     (let (section, m1) = getOrCreateSection keyOrSection m
      in case map_of (map_sec (heap m1 ! section)) valueOrKey of
           Some exists \<Rightarrow> m1\<lparr>heap := (heap m1)[exists := set_val v (heap m1 ! exists)]\<rparr>
         | None \<Rightarrow>
             (let h1 = (heap m1)[section := add_end 1 (heap m1 ! section)];
                  lineValue = length h1;
                  m2 = alloc (LineValue (end_sec (h1 ! section)) (Some (sec (h1 ! section)))
                         valueOrKey v) (m1\<lparr>heap := h1\<rparr>);
                  m3 = appendValue lineValue m2
              in m3\<lparr>heap := (heap m3)[section := map_set valueOrKey lineValue
                                                   (heap m3 ! section)]\<rparr>))"

definition set_global :: "string \<Rightarrow> IniValue \<Rightarrow> IniMap \<Rightarrow> IniMap" where
  "set_global keyOrSection valueOrKey m =
     (let lineValue = length (heap m);
          m1 = alloc (LineValue 0 None keyOrSection valueOrKey) m;
          m2 = appendValue lineValue m1
      in m2\<lparr>global := AList.update keyOrSection lineValue (global m2)\<rparr>)"

definition IniMap_set :: "string \<Rightarrow> IniValue \<Rightarrow> IniValue \<Rightarrow> IniMap \<Rightarrow> IniMap" where
  "IniMap_set keyOrSection valueOrKey v m =
     (case valueOrKey of
        VString k \<Rightarrow>
          if v \<noteq> VUndefined then set_section keyOrSection k v m
          else set_global keyOrSection valueOrKey m
      | _ \<Rightarrow> set_global keyOrSection valueOrKey m)"

subsection \<open>\<open>#readTextLines\<close>\<close>

text \<open>
  The generator, run to its end: the lines it yields, and the formatting options with
  the line break recorded at the first terminator when none was configured. \<open>line\<close> is
  the text collected since the last terminator.
\<close>

definition record_lineBreak :: "line_break \<Rightarrow> FormattingOptions \<Rightarrow> FormattingOptions" where
  "record_lineBreak b f = (if lineBreak f = None then f\<lparr>lineBreak := Some b\<rparr> else f)"

function readTextLines ::
  "string \<Rightarrow> string \<Rightarrow> FormattingOptions \<Rightarrow> string list \<times> FormattingOptions" where
  "readTextLines [] line f = ([line], f)"
| "readTextLines (c # cs) line f =
     (if c = CHR 0x0A \<or> c = CHR 0x0D
      then (let crlf = (c = CHR 0x0D \<and> take 1 cs = [CHR 0x0A]);
                rest = (if crlf then drop 1 cs else cs);
                f1 = record_lineBreak (if crlf then CRLF else if c = CHR 0x0A then LF else CR) f;
                (ls, f') = readTextLines rest [] f1
            in (line # ls, f'))
      else readTextLines cs (line @ [c]) f)"
  by pat_completeness auto
termination
  by (relation "measure (\<lambda>(s, _, _). length s)") auto

subsection \<open>\<open>parse\<close>\<close>

text \<open>
  One round of the loop of \<open>parse\<close>: the state is the model and the cursor
  \<open>currentSection\<close>; \<open>lineNumber\<close> is passed in and incremented by the caller.
\<close>

definition parse_line ::
  "ReviverFunction \<Rightarrow> string \<Rightarrow> int \<Rightarrow> ref option \<times> IniMap \<Rightarrow> error + ref option \<times> IniMap" where
  "parse_line reviver line lineNumber st =
     (let currentSection = fst st; m = snd st; trimmed = trim line
      in if isComment trimmed
         then (let r = length (heap m); m1 = alloc (LineComment lineNumber trimmed) m
               in Inr (currentSection, m1\<lparr>lines := lines m1 @ [r]\<rparr>))
         else (case isSection trimmed lineNumber of
                 Inl e \<Rightarrow> Inl e
               | Inr True \<Rightarrow>
                   (let name = substring trimmed 1 (int (length trimmed) - 1)
                    in if \<not> has_non_whitespace name
                       then Inl (SyntaxError (UnexpectedEmptySectionName lineNumber))
                       else (let r = length (heap m);
                                 m1 = alloc (LineSection lineNumber name [] lineNumber) m
                             in Inr (Some r, m1\<lparr>lines := lines m1 @ [r],
                                        sections := AList.update name r (sections m1)\<rparr>)))
               | Inr False \<Rightarrow>
                   (let assignmentPos = indexOf trimmed (CHR ''='')
                    in if assignmentPos = - 1
                       then Inl (SyntaxError (UnexpectedToken (take 1 trimmed) lineNumber))
                       else if assignmentPos = 0
                       then Inl (SyntaxError (UnexpectedEmptyKeyName lineNumber))
                       else (let leftHand = substring trimmed 0 assignmentPos;
                                 rightHand = substring_from trimmed (assignmentPos + 1);
                                 f = formatting m;
                                 m0 = (if pretty f = None
                                       then m\<lparr>formatting := f\<lparr>pretty :=
                                              Some (endsWith leftHand '' '' \<and>
                                                    startsWith rightHand '' '')\<rparr>\<rparr>
                                       else m);
                                 k = trim leftHand;
                                 v = trim rightHand;
                                 r = length (heap m0)
                             in case currentSection of
                                  Some cur \<Rightarrow>
                                    (let name = sec (heap m0 ! cur);
                                         m1 = alloc (LineValue lineNumber (Some name) k
                                                (reviver k v (Some name))) m0;
                                         h2 = (heap m1)[cur := map_set k r (heap m1 ! cur)];
                                         h3 = h2[cur := set_end lineNumber (h2 ! cur)]
                                     in Inr (currentSection,
                                          m1\<lparr>lines := lines m1 @ [r], heap := h3\<rparr>))
                                | None \<Rightarrow>
                                    (let m1 = alloc (LineValue lineNumber None k
                                                (reviver k v None)) m0
                                     in Inr (currentSection,
                                          m1\<lparr>global := AList.update k r (global m1),
                                             lines := lines m1 @ [r]\<rparr>))))))"

fun parse_lines ::
  "ReviverFunction \<Rightarrow> string list \<Rightarrow> int \<Rightarrow> ref option \<times> IniMap
     \<Rightarrow> error + ref option \<times> IniMap" where
  "parse_lines reviver [] lineNumber st = Inr st"
| "parse_lines reviver (line # rest) lineNumber st =
     (case parse_line reviver line lineNumber st of
        Inl e \<Rightarrow> Inl e
      | Inr st' \<Rightarrow> parse_lines reviver rest (lineNumber + 1) st')"

text \<open>
  The argument of \<open>parse\<close> is declared a string, and tested to be one at run time. The
  template literal of the message converts a value that is not a string to a string
  before the \<open>SyntaxError\<close> is built, so such a value is represented by the outcome of
  that conversion: the text it yields, or the exception it throws (a \<open>TypeError\<close> for a
  symbol and for an object without a conversion to a primitive value, and whatever a
  conversion method of the object throws).

  The generator is consumed lazily by the loop; its only effect is on the option
  \<open>lineBreak\<close>, which the loop body neither reads nor writes, so the model runs it first.
  When \<open>parse\<close> throws, the records of the lines before the malformed one stay in the
  object; the model returns the error alone.
\<close>

datatype js_value = JString string | JNonString "error + string"

definition parse :: "js_value \<Rightarrow> ReviverFunction option \<Rightarrow> IniMap \<Rightarrow> error + IniMap" where
  "parse input reviver m =
     (case input of
        JNonString conversion \<Rightarrow>
          (case conversion of
             Inl thrown \<Rightarrow> Inl thrown
           | Inr shown \<Rightarrow> Inl (SyntaxError (UnexpectedToken shown 0)))
      | JString text \<Rightarrow>
          (let rv = (case reviver of None \<Rightarrow> default_reviver | Some f \<Rightarrow> f);
               (ls, f') = readTextLines text [] (formatting m)
           in case parse_lines rv ls 1 (None, m\<lparr>formatting := f'\<rparr>) of
                Inl e \<Rightarrow> Inl e
              | Inr st \<Rightarrow> Inr (snd st)))"

subsection \<open>\<open>toObject\<close>\<close>




section \<open>Notions used in the statements\<close>

subsection \<open>Line terminators\<close>

text \<open>
  A line terminator is a line feed, a carriage return, or a carriage return followed by
  a line feed, which counts once.
\<close>

definition is_terminator :: "char \<Rightarrow> bool" where
  "is_terminator c \<longleftrightarrow> c = CHR 0x0A \<or> c = CHR 0x0D"

fun terminators :: "string \<Rightarrow> nat" where
  "terminators [] = 0"
| "terminators [c] = (if is_terminator c then 1 else 0)"
| "terminators (c # d # cs) =
     (if c = CHR 0x0D \<and> d = CHR 0x0A then Suc (terminators cs)
      else if is_terminator c then Suc (terminators (d # cs))
      else terminators (d # cs))"

definition after_last_terminator :: "string \<Rightarrow> string" where
  "after_last_terminator s = rev (takeWhile (\<lambda>c. \<not> is_terminator c) (rev s))"

subsection \<open>Error kinds\<close>

definition throws_type_error :: "error + 'a \<Rightarrow> bool" where
  "throws_type_error r \<longleftrightarrow> (case r of Inl (TypeError _) \<Rightarrow> True | _ \<Rightarrow> False)"

subsection \<open>Keys and values of a key/value line\<close>

text \<open>
  A key as a line \<open>key=value\<close> gives it back: not empty, without surrounding white
  space, without \<open>=\<close> and without line terminators, and not the start of a comment or
  of a section header.
\<close>

definition plain_key :: "string \<Rightarrow> bool" where
  "plain_key k \<longleftrightarrow>
     k \<noteq> [] \<and> trim k = k \<and> CHR ''='' \<notin> set k \<and> \<not> list_ex is_terminator k \<and>
     \<not> isComment k \<and> \<not> startsWith k ''[''"








text \<open>The two sides of the first \<open>=\<close> of a trimmed line, before they are trimmed.\<close>

definition left_hand :: "string \<Rightarrow> string" where
  "left_hand t = takeWhile (\<lambda>c. c \<noteq> CHR ''='') t"

definition right_hand :: "string \<Rightarrow> string" where
  "right_hand t = drop 1 (dropWhile (\<lambda>c. c \<noteq> CHR ''='') t)"

subsection \<open>Classification of a trimmed line\<close>

text \<open>
  A trimmed line that is neither a comment nor a section header is a key/value line;
  its spacing is pretty when the left-hand side ends with a space and the right-hand
  side begins with one.
\<close>

definition is_key_value_line :: "string \<Rightarrow> bool" where
  "is_key_value_line t \<longleftrightarrow> \<not> isComment t \<and> \<not> startsWith t ''[''"

definition pretty_spacing :: "string \<Rightarrow> bool" where
  "pretty_spacing t \<longleftrightarrow> endsWith (left_hand t) '' '' \<and> startsWith (right_hand t) '' ''"

definition first_key_value :: "string list \<Rightarrow> string option" where
  "first_key_value ls = List.find is_key_value_line (map trim ls)"

definition inferred_pretty :: "bool option \<Rightarrow> string list \<Rightarrow> bool option" where
  "inferred_pretty configured ls =
     (case configured of
        Some b \<Rightarrow> Some b
      | None \<Rightarrow> map_option pretty_spacing (first_key_value ls))"

text \<open>
  The malformations of a trimmed line, in the words of the specification: a line that
  starts with \<open>[\<close> and does not end with \<open>]\<close>, a section name that is empty or all white
  space, a line that is no section header and has no \<open>=\<close>, and a line that starts with
  \<open>=\<close>. \<open>first_error\<close> is the malformation of the first malformed line, the lines being
  numbered from \<open>n\<close>.
\<close>

definition section_name :: "string \<Rightarrow> string" where
  "section_name t = butlast (tl t)"

definition line_error :: "string \<Rightarrow> int \<Rightarrow> message option" where
  "line_error t n =
     (if isComment t then None
      else if hd t = CHR ''[''
      then (if last t \<noteq> CHR '']'' then Some (UnexpectedEndOfSection n)
            else if list_all is_white_space (section_name t)
            then Some (UnexpectedEmptySectionName n)
            else None)
      else if CHR ''='' \<notin> set t then Some (UnexpectedToken [hd t] n)
      else if hd t = CHR ''='' then Some (UnexpectedEmptyKeyName n)
      else None)"

fun first_error :: "string list \<Rightarrow> int \<Rightarrow> message option" where
  "first_error [] n = None"
| "first_error (l # ls) n =
     (case line_error (trim l) n of
        Some e \<Rightarrow> Some e
      | None \<Rightarrow> first_error ls (n + 1))"

subsection \<open>Well-formed documents\<close>

text \<open>
  Two records have the same content when they differ at most in their line number and
  in the end of a section.
\<close>

definition same_content :: "Line \<Rightarrow> Line \<Rightarrow> bool" where
  "same_content l l' \<longleftrightarrow> set_end 0 (set_num 0 l) = set_end 0 (set_num 0 l')"

text \<open>
  The line numbers of the records in the order of the array, and the invariant of the
  specification: they are \<open>1..length\<close>, each the position of its record.
\<close>

definition line_numbers :: "IniMap \<Rightarrow> int list" where
  "line_numbers m = map (\<lambda>r. num (heap m ! r)) (lines m)"

definition contiguous :: "IniMap \<Rightarrow> bool" where
  "contiguous m \<longleftrightarrow> line_numbers m = map int [1..<Suc (length (lines m))]"

text \<open>
  An entry of \<open>#sections\<close> is sound when its record is a section of that name among the
  lines, its key map refers to value records, and, for a name that is not empty, its
  range from \<open>num\<close> to \<open>end\<close> lies in the document. A model is consistent when no record
  occurs twice among the lines, every line refers to a record, the numbers are
  contiguous and every entry of \<open>#sections\<close> is sound.
\<close>

definition sound_section :: "IniMap \<Rightarrow> string \<times> ref \<Rightarrow> bool" where
  "sound_section m e \<longleftrightarrow>
     snd e \<in> set (lines m) \<and> is_section (heap m ! snd e) \<and> sec (heap m ! snd e) = fst e \<and>
     (fst e \<noteq> [] \<longrightarrow>
        num (heap m ! snd e) \<le> end_sec (heap m ! snd e) \<and>
        end_sec (heap m ! snd e) \<le> int (length (lines m))) \<and>
     list_all (\<lambda>kv. snd kv < length (heap m) \<and> is_value (heap m ! snd kv))
       (map_sec (heap m ! snd e))"

definition consistent :: "IniMap \<Rightarrow> bool" where
  "consistent m \<longleftrightarrow>
     distinct (lines m) \<and> list_all (\<lambda>r. r < length (heap m)) (lines m) \<and> contiguous m \<and>
     list_all (sound_section m) (sections m)"

text \<open>
  The lines are numbered when every line refers to a record of the store, no record
  occurs twice, and the numbers are contiguous (the first three conditions of a
  consistent model).
\<close>

definition numbered :: "IniMap \<Rightarrow> bool" where
  "numbered m \<longleftrightarrow>
     distinct (lines m) \<and> list_all (\<lambda>r. r < length (heap m)) (lines m) \<and> contiguous m"

text \<open>
  No range of a section is split between the lines \<open>p\<close> and \<open>p + 1\<close>: a section record
  among the lines lies after line \<open>p\<close> exactly when its end does.
\<close>

definition unbroken_at :: "nat \<Rightarrow> IniMap \<Rightarrow> bool" where
  "unbroken_at p m \<longleftrightarrow>
     list_all (\<lambda>r. is_section (heap m ! r) \<longrightarrow>
        (int p + 1 \<le> num (heap m ! r)) = (int p + 1 \<le> end_sec (heap m ! r))) (lines m)"

text \<open>
  The ranges of the section records among the lines are ordered when each range is not
  empty, lies in the document and ends before the header of every later section.
\<close>

definition ranges_ordered :: "IniMap \<Rightarrow> bool" where
  "ranges_ordered m \<longleftrightarrow>
     list_all (\<lambda>r. is_section (heap m ! r) \<longrightarrow>
        num (heap m ! r) \<le> end_sec (heap m ! r) \<and>
        end_sec (heap m ! r) \<le> int (length (lines m)) \<and>
        list_all (\<lambda>r'. is_section (heap m ! r') \<and> num (heap m ! r) < num (heap m ! r') \<longrightarrow>
           end_sec (heap m ! r) < num (heap m ! r')) (lines m)) (lines m)"

text \<open>
  The effect of inserting one record at index \<open>p\<close> of the lines (line \<open>p + 1\<close>), for the
  section \<open>owner\<close> if any: the index lies in the document, the new record is the next
  object of the store, every line at or after the insertion point has its number
  incremented, and so has the end of the owner and of every section whose end was at or
  after the insertion point.
\<close>

definition inserted_at :: "nat \<Rightarrow> ref option \<Rightarrow> IniMap \<Rightarrow> IniMap \<Rightarrow> bool" where
  "inserted_at p owner m m' \<longleftrightarrow>
     p \<le> length (lines m) \<and>
     lines m' = take p (lines m) @ length (heap m) # drop p (lines m) \<and>
     length (heap m') = Suc (length (heap m)) \<and>
     num (heap m' ! length (heap m)) = int p + 1 \<and>
     list_all (\<lambda>r. num (heap m' ! r) =
        (if int p + 1 \<le> num (heap m ! r) then num (heap m ! r) + 1 else num (heap m ! r)))
       (lines m) \<and>
     list_all (\<lambda>r. is_section (heap m ! r) \<longrightarrow> end_sec (heap m' ! r) =
        (if owner = Some r \<or> int p + 1 \<le> end_sec (heap m ! r)
         then end_sec (heap m ! r) + 1 else end_sec (heap m ! r)))
       (lines m)"

definition first_section_index :: "IniMap \<Rightarrow> nat" where
  "first_section_index m =
     (case first_section (heap m) (lines m) 0 of Some i \<Rightarrow> i | None \<Rightarrow> length (lines m))"

subsection \<open>Sequences of operations\<close>

datatype operation = Parse string "ReviverFunction option" | Set string IniValue IniValue

fun is_Set :: "operation \<Rightarrow> bool" where
  "is_Set (Set _ _ _) = True"
| "is_Set (Parse _ _) = False"

fun apply_operation :: "operation \<Rightarrow> IniMap \<Rightarrow> error + IniMap" where
  "apply_operation (Parse s rv) m = parse (JString s) rv m"
| "apply_operation (Set a b c) m = Inr (IniMap_set a b c m)"

fun run :: "operation list \<Rightarrow> IniMap \<Rightarrow> error + IniMap" where
  "run [] m = Inr m"
| "run (x # xs) m =
     (case apply_operation x m of Inl e \<Rightarrow> Inl e | Inr m' \<Rightarrow> run xs m')"

text \<open>A call of \<open>set\<close> for the section whose name is the empty string.\<close>

fun targets_unnamed :: "operation \<Rightarrow> bool" where
  "targets_unnamed (Set a (VString k) v) = (a = [] \<and> v \<noteq> VUndefined)"
| "targets_unnamed _ = False"

subsection \<open>Auxiliary notions of the proofs\<close>

text \<open>
  The cursor \<open>currentSection\<close> of \<open>parse\<close> is the last section record among the lines, if
  there is one.
\<close>

definition last_section :: "ref option \<Rightarrow> IniMap \<Rightarrow> bool" where
  "last_section cur m \<longleftrightarrow>
     (case cur of
        None \<Rightarrow> list_all (\<lambda>r. \<not> is_section (heap m ! r)) (lines m)
      | Some c \<Rightarrow>
          c \<in> set (lines m) \<and> is_section (heap m ! c) \<and>
          list_all (\<lambda>r. is_section (heap m ! r) \<longrightarrow> num (heap m ! r) \<le> num (heap m ! c))
            (lines m))"

text \<open>
  One round of the loop of \<open>#appendOrDeleteLine\<close> on a record, when the comment flag is
  off; and the state after \<open>#appendOrDeleteLine(input, Add)\<close> for an input that is not a
  comment and whose number is \<open>p + 1\<close>: the reference enters the lines at index \<open>p\<close> and
  the records of the lines behind it are shifted.
\<close>

definition shift1 :: "int \<Rightarrow> Line \<Rightarrow> Line" where
  "shift1 d l = (if is_section l then add_end d (add_num d l) else add_num d l)"

definition insert_line :: "nat \<Rightarrow> ref \<Rightarrow> IniMap \<Rightarrow> IniMap" where
  "insert_line p v m =
     m\<lparr>lines := take p (lines m) @ v # drop p (lines m),
       heap := shift_lines (sections m) 1 (drop p (lines m)) False (heap m)\<rparr>"

section \<open>The line tokenizer\<close>

declare readTextLines.simps(2) [simp del]

lemma terminators_Cons:
  "terminators (c # cs) =
     (if is_terminator c
      then Suc (terminators (if c = CHR 0x0D \<and> take 1 cs = [CHR 0x0A] then drop 1 cs else cs))
      else terminators cs)"
  by (cases cs) (auto simp: is_terminator_def)

lemma readTextLines_Cons:
  "fst (readTextLines (c # cs) acc f) =
     (if is_terminator c
      then acc # fst (readTextLines (if c = CHR 0x0D \<and> take 1 cs = [CHR 0x0A] then drop 1 cs else cs) []
             (record_lineBreak (if c = CHR 0x0D \<and> take 1 cs = [CHR 0x0A] then CRLF
                                else if c = CHR 0x0A then LF else CR) f))
      else fst (readTextLines cs (acc @ [c]) f))"
  by (simp add: readTextLines.simps(2) is_terminator_def Let_def split_beta)

lemma readTextLines_length:
  "length (fst (readTextLines s acc f)) = Suc (terminators s)"
proof (induction s acc f rule: readTextLines.induct)
  case (1 acc f)
  show ?case by simp
next
  case (2 c cs acc f)
  show ?case
  proof (cases "is_terminator c")
    case True
    then have t: "c = CHR 0x0A \<or> c = CHR 0x0D" by (simp add: is_terminator_def)
    from 2(1)[OF t refl refl refl] True show ?thesis
      by (simp only: readTextLines_Cons terminators_Cons if_True list.size length_Cons)
  next
    case False
    then have t: "\<not> (c = CHR 0x0A \<or> c = CHR 0x0D)" by (simp add: is_terminator_def)
    from 2(2)[OF t] False show ?thesis
      by (simp only: readTextLines_Cons terminators_Cons if_False)
  qed
qed

lemma after_last_Cons:
  "after_last_terminator (c # cs) =
     (if list_ex is_terminator cs then after_last_terminator cs
      else if is_terminator c then cs else c # cs)"
  by (auto simp: after_last_terminator_def takeWhile_append list_ex_iff takeWhile_eq_all_conv)

lemma readTextLines_last:
  "last (fst (readTextLines s acc f)) =
     (if list_ex is_terminator s then after_last_terminator s else acc @ s)"
proof (induction s acc f rule: readTextLines.induct)
  case (1 acc f)
  show ?case by simp
next
  case (2 c cs acc f)
  show ?case
  proof (cases "is_terminator c")
    case True
    then have t: "c = CHR 0x0A \<or> c = CHR 0x0D" by (simp add: is_terminator_def)
    note ih = 2(1)[OF t refl refl refl]
    have ne: "fst (readTextLines r [] g) \<noteq> []" for r g
      using readTextLines_length[of r "[]" g] by (cases "fst (readTextLines r [] g)") simp_all
    show ?thesis
    proof (cases "c = CHR 0x0D \<and> take 1 cs = [CHR 0x0A]")
      case crlf: True
      then obtain ds where cs: "cs = CHR 0x0A # ds" by (cases cs) auto
      have lf: "is_terminator (CHR 0x0A)" by (simp add: is_terminator_def)
      from ih crlf True cs lf show ?thesis
        by (simp add: readTextLines_Cons ne after_last_Cons)
    next
      case False
      with ih True show ?thesis
        by (auto simp: readTextLines_Cons ne after_last_Cons)
    qed
  next
    case False
    then have t: "\<not> (c = CHR 0x0A \<or> c = CHR 0x0D)" by (simp add: is_terminator_def)
    from 2(2)[OF t] False show ?thesis
      by (simp add: readTextLines_Cons after_last_Cons)
  qed
qed

lemma readTextLines_concat:
  "concat (fst (readTextLines s acc f)) = acc @ filter (\<lambda>c. \<not> is_terminator c) s"
proof (induction s acc f rule: readTextLines.induct)
  case (1 acc f)
  show ?case by simp
next
  case (2 c cs acc f)
  show ?case
  proof (cases "is_terminator c")
    case True
    then have t: "c = CHR 0x0A \<or> c = CHR 0x0D" by (simp add: is_terminator_def)
    note ih = 2(1)[OF t refl refl refl]
    show ?thesis
    proof (cases "c = CHR 0x0D \<and> take 1 cs = [CHR 0x0A]")
      case crlf: True
      then obtain ds where cs: "cs = CHR 0x0A # ds" by (cases cs) auto
      have lf: "is_terminator (CHR 0x0A)" by (simp add: is_terminator_def)
      from ih crlf True cs lf show ?thesis
        by (simp add: readTextLines_Cons)
    next
      case False
      with ih True show ?thesis
        by (auto simp: readTextLines_Cons)
    qed
  next
    case False
    then have t: "\<not> (c = CHR 0x0A \<or> c = CHR 0x0D)" by (simp add: is_terminator_def)
    from 2(2)[OF t] False show ?thesis
      by (simp add: readTextLines_Cons)
  qed
qed

lemma readTextLines_clean:
  "\<forall>c\<in>set acc. \<not> is_terminator c \<Longrightarrow>
   \<forall>l\<in>set (fst (readTextLines s acc f)). \<forall>c\<in>set l. \<not> is_terminator c"
proof (induction s acc f rule: readTextLines.induct)
  case (1 acc f)
  then show ?case by simp
next
  case (2 c cs acc f)
  show ?case
  proof (cases "is_terminator c")
    case True
    then have t: "c = CHR 0x0A \<or> c = CHR 0x0D" by (simp add: is_terminator_def)
    have "\<forall>l\<in>set (fst (readTextLines (if c = CHR 0x0D \<and> take 1 cs = [CHR 0x0A] then drop 1 cs else cs) []
             (record_lineBreak (if c = CHR 0x0D \<and> take 1 cs = [CHR 0x0A] then CRLF
                                else if c = CHR 0x0A then LF else CR) f))). \<forall>c\<in>set l. \<not> is_terminator c"
      by (rule 2(1)[OF t refl refl refl]) simp
    with True 2(3) show ?thesis
      by (simp only: readTextLines_Cons if_True set_simps ball_simps simp_thms)
  next
    case False
    then have t: "\<not> (c = CHR 0x0A \<or> c = CHR 0x0D)" by (simp add: is_terminator_def)
    have "\<forall>l\<in>set (fst (readTextLines cs (acc @ [c]) f)). \<forall>c\<in>set l. \<not> is_terminator c"
      by (rule 2(2)[OF t]) (use 2(3) False in auto)
    with False show ?thesis
      by (simp only: readTextLines_Cons if_False)
  qed
qed

lemma parse_lines_append:
  "parse_lines rv (xs @ ys) n st =
     (case parse_lines rv xs n st of
        Inl e \<Rightarrow> Inl e
      | Inr st' \<Rightarrow> parse_lines rv ys (n + int (length xs)) st')"
proof (induction xs arbitrary: n st)
  case Nil
  show ?case by simp
next
  case (Cons x xs)
  show ?case
  proof (cases "parse_line rv x n st")
    case (Inl e)
    then show ?thesis by simp
  next
    case (Inr st1)
    have "n + 1 + int (length xs) = n + int (length (x # xs))" by simp
    then show ?thesis
      using Inr Cons [of "n + 1" st1] by (simp only: append_Cons parse_lines.simps sum.case)
  qed
qed

lemma isComment_Nil: "isComment []"
  by (simp add: isComment_def)

lemma trim_Nil: "trim [] = []"
  by (simp add: trim_def)

lemma parse_line_comment:
  "isComment (trim l) \<Longrightarrow>
   parse_line rv l n st =
     Inr (fst st, (snd st)\<lparr>heap := heap (snd st) @ [LineComment n (trim l)],
                          lines := lines (snd st) @ [length (heap (snd st))]\<rparr>)"
  by (simp add: parse_line_def Let_def alloc_def)

lemma parse_line_lines:
  "parse_line rv l n st = Inr st' \<Longrightarrow>
   lines (snd st') = lines (snd st) @ [length (heap (snd st))] \<and>
   length (heap (snd st')) = Suc (length (heap (snd st)))"
  by (auto simp: parse_line_def Let_def alloc_def split: if_splits sum.splits bool.splits option.splits)

lemma parse_lines_length:
  "parse_lines rv ls n st = Inr st' \<Longrightarrow>
   length (lines (snd st')) = length (lines (snd st)) + length ls"
proof (induction ls arbitrary: n st)
  case Nil
  then show ?case by simp
next
  case (Cons l ls)
  then obtain st1 where 1: "parse_line rv l n st = Inr st1"
    and 2: "parse_lines rv ls (n + 1) st1 = Inr st'"
    by (auto split: sum.splits)
  from Cons.IH[OF 2] parse_line_lines[OF 1] show ?case by simp
qed


lemma after_last_terminator_Nil:
  assumes "s \<noteq> []" and "is_terminator (last s)"
  shows "after_last_terminator s = []"
proof (cases "rev s")
  case Nil
  with assms(1) show ?thesis by simp
next
  case (Cons x xs)
  then have "hd (rev s) = x" by simp
  with assms(1) have "x = last s" by (simp add: hd_rev)
  with Cons have "takeWhile (\<lambda>c. \<not> is_terminator c) (rev s) =
      takeWhile (\<lambda>c. \<not> is_terminator c) (last s # xs)"
    by (simp only:)
  with assms(2) show ?thesis by (simp add: after_last_terminator_def)
qed

lemma list_ex_last: "s \<noteq> [] \<Longrightarrow> P (last s) \<Longrightarrow> list_ex P s"
  by (auto simp: list_ex_iff)

lemma parse_trailing_comment:
  assumes ne: "s \<noteq> []" and lt: "is_terminator (last s)"
    and ok: "parse (JString s) rv m = Inr m'"
  shows "length (lines m') = length (lines m) + terminators s + 1 \<and>
         lines m' \<noteq> [] \<and>
         heap m' ! last (lines m') = LineComment (int (terminators s) + 1) []"
proof -
  define ls where "ls = fst (readTextLines s [] (formatting m))"
  define f' where "f' = snd (readTextLines s [] (formatting m))"
  define rv' where "rv' = (case rv of None \<Rightarrow> default_reviver | Some g \<Rightarrow> g)"
  define st0 where "st0 = (None :: ref option, m\<lparr>formatting := f'\<rparr>)"
  have len: "length ls = Suc (terminators s)"
    by (simp add: ls_def readTextLines_length)
  have "last ls = after_last_terminator s"
    using ne lt by (auto simp: ls_def readTextLines_last list_ex_iff)
  then have lastls: "last ls = []"
    by (simp add: after_last_terminator_Nil[OF ne lt])
  from len have "ls \<noteq> []" by auto
  then have split: "ls = butlast ls @ [[]]"
    using lastls by (metis append_butlast_last_id)
  from ok obtain st where st: "parse_lines rv' ls 1 st0 = Inr st" and m': "m' = snd st"
    by (auto simp: parse_def ls_def f'_def rv'_def st0_def split_beta Let_def split: sum.splits)
  from st split have "parse_lines rv' (butlast ls @ [[]]) 1 st0 = Inr st" by simp
  then obtain st1 where 1: "parse_lines rv' (butlast ls) 1 st0 = Inr st1"
    and 2: "parse_line rv' [] (1 + int (length (butlast ls))) st1 = Inr st"
    by (auto simp: parse_lines_append split: sum.splits)
  have n: "1 + int (length (butlast ls)) = int (terminators s) + 1"
    using len by simp
  from 2 n have 3: "parse_line rv' [] (int (terminators s) + 1) st1 = Inr st"
    by (simp only:)
  have st_eq: "st = (fst st1, (snd st1)\<lparr>heap := heap (snd st1) @ [LineComment (int (terminators s) + 1) []],
                          lines := lines (snd st1) @ [length (heap (snd st1))]\<rparr>)"
    using 3 parse_line_comment[of "[]" rv' "int (terminators s) + 1" st1]
    by (simp add: trim_Nil isComment_Nil)
  from parse_lines_length[OF 1] have "length (lines (snd st1)) = length (lines m) + terminators s"
    using len by (simp add: st0_def)
  with st_eq m' show ?thesis by simp
qed

text \<open>
  C10: for every text the tokenizer yields one line per terminator and one final line,
  the text after the last terminator (the whole text when there is none); the lines
  hold no terminator character and together hold all other characters of the text.
  Consequently a successful parse of a text that ends with a terminator appends, as
  its last record, an empty comment whose number is the number of terminators plus one.
\<close>

theorem C10_tokenizer_lines:
  "length (fst (readTextLines s [] f)) = terminators s + 1 \<and>
   concat (fst (readTextLines s [] f)) = filter (\<lambda>c. \<not> is_terminator c) s \<and>
   (\<forall>l\<in>set (fst (readTextLines s [] f)). \<forall>c\<in>set l. \<not> is_terminator c) \<and>
   last (fst (readTextLines s [] f)) = after_last_terminator s \<and>
   (s \<noteq> [] \<and> is_terminator (last s) \<and> parse (JString s) rv m = Inr m' \<longrightarrow>
      length (lines m') = length (lines m) + terminators s + 1 \<and>
      lines m' \<noteq> [] \<and>
      heap m' ! last (lines m') = LineComment (int (terminators s) + 1) [])"
proof -
  have "after_last_terminator s = s" if "\<not> list_ex is_terminator s"
    using that by (simp add: after_last_terminator_def list_ex_iff takeWhile_eq_all_conv[THEN iffD2])
  then have "last (fst (readTextLines s [] f)) = after_last_terminator s"
    by (simp add: readTextLines_last)
  moreover have "\<forall>l\<in>set (fst (readTextLines s [] f)). \<forall>c\<in>set l. \<not> is_terminator c"
    by (rule readTextLines_clean) simp
  ultimately show ?thesis
    using parse_trailing_comment[of s rv m m']
    by (simp add: readTextLines_length readTextLines_concat)
qed



theorem C10_tokenizer_lines_witness:
  "(''a=1'' @ [CHR 0x0A] \<noteq> [] \<and> is_terminator (last (''a=1'' @ [CHR 0x0A]))) \<and>
   fst (readTextLines (''a=1'' @ [CHR 0x0A]) [] no_formatting) = [''a=1'', []] \<and>
   terminators (''a=1'' @ [CHR 0x0A]) = 1 \<and>
   parse (JString (''a=1'' @ [CHR 0x0A])) None (new_IniMap no_formatting) =
     Inr \<lparr>global = [(''a'', 0)], sections = [], lines = [0, 1],
          formatting = \<lparr>lineBreak = Some LF, pretty = Some False\<rparr>,
          heap = [LineValue 1 None ''a'' (VNumber (Finite 1)), LineComment 2 []]\<rparr> \<and>
   (length (lines \<lparr>global = [(''a'', 0)], sections = [], lines = [0, 1],
          formatting = \<lparr>lineBreak = Some LF, pretty = Some False\<rparr>,
          heap = [LineValue 1 None ''a'' (VNumber (Finite 1)), LineComment 2 []]\<rparr>) =
      length (lines (new_IniMap no_formatting)) + terminators (''a=1'' @ [CHR 0x0A]) + 1 \<and>
    lines \<lparr>global = [(''a'', 0)], sections = [], lines = [0, 1],
          formatting = \<lparr>lineBreak = Some LF, pretty = Some False\<rparr>,
          heap = [LineValue 1 None ''a'' (VNumber (Finite 1)), LineComment 2 []]\<rparr> \<noteq> [] \<and>
    heap \<lparr>global = [(''a'', 0)], sections = [], lines = [0, 1],
          formatting = \<lparr>lineBreak = Some LF, pretty = Some False\<rparr>,
          heap = [LineValue 1 None ''a'' (VNumber (Finite 1)), LineComment 2 []]\<rparr> !
      last (lines \<lparr>global = [(''a'', 0)], sections = [], lines = [0, 1],
          formatting = \<lparr>lineBreak = Some LF, pretty = Some False\<rparr>,
          heap = [LineValue 1 None ''a'' (VNumber (Finite 1)), LineComment 2 []]\<rparr>) =
      LineComment (int (terminators (''a=1'' @ [CHR 0x0A])) + 1) [])"
proof -
  let ?s = "''a=1'' @ [CHR 0x0A]"
  let ?m = "\<lparr>global = [(''a'', 0)], sections = [], lines = [0, 1],
          formatting = \<lparr>lineBreak = Some LF, pretty = Some False\<rparr>,
          heap = [LineValue 1 None ''a'' (VNumber (Finite 1)), LineComment 2 []]\<rparr>"
  have p: "parse (JString ?s) None (new_IniMap no_formatting) = Inr ?m"
    by code_simp
  have t: "terminators ?s = 1" by code_simp
  have r: "fst (readTextLines ?s [] no_formatting) = [''a=1'', []]"
    by code_simp
  have c: "?s \<noteq> [] \<and> is_terminator (last ?s)"
    by (simp add: is_terminator_def)
  from C10_tokenizer_lines[of ?s no_formatting None "new_IniMap no_formatting" ?m] c p
  have "length (lines ?m) = length (lines (new_IniMap no_formatting)) + terminators ?s + 1 \<and>
        lines ?m \<noteq> [] \<and>
        heap ?m ! last (lines ?m) = LineComment (int (terminators ?s) + 1) []"
    by blast
  with p t r c show ?thesis by blast
qed

section \<open>Strings\<close>

lemma dropWhile_shorter:
  "xs \<noteq> [] \<Longrightarrow> P (hd xs) \<Longrightarrow> length (dropWhile P xs) < length xs"
  by (cases xs) (simp_all add: le_imp_less_Suc length_dropWhile_le)

lemma dropWhile_id: "xs = [] \<or> \<not> P (hd xs) \<Longrightarrow> dropWhile P xs = xs"
  by (cases xs) auto

lemma trim_id_iff:
  "trim s = s \<longleftrightarrow> s = [] \<or> (\<not> is_white_space (hd s) \<and> \<not> is_white_space (last s))"
proof (cases s)
  case Nil
  then show ?thesis by (simp add: trim_def)
next
  case (Cons a as)
  then have ne: "s \<noteq> []" by simp
  show ?thesis
  proof (cases "is_white_space a")
    case True
    have "length (trim s) \<le> length (dropWhile is_white_space s)"
      unfolding trim_def
      using length_dropWhile_le[of is_white_space "rev (dropWhile is_white_space s)"] by simp
    also have "\<dots> < length s" using Cons True
      by (intro dropWhile_shorter) simp_all
    finally have "trim s \<noteq> s" by auto
    with Cons True show ?thesis by simp
  next
    case False
    then have 1: "dropWhile is_white_space s = s" using Cons by simp
    show ?thesis
    proof (cases "is_white_space (last s)")
      case True
      have "length (dropWhile is_white_space (rev s)) < length (rev s)"
        using True ne by (intro dropWhile_shorter) (simp_all add: hd_rev)
      then have "length (dropWhile is_white_space (rev s)) < length s" by simp
      then have "trim s \<noteq> s" unfolding trim_def 1
        by (metis length_rev less_irrefl)
      with Cons False True show ?thesis by simp
    next
      case nl: False
      have "dropWhile is_white_space (rev s) = rev s"
        using nl ne by (intro dropWhile_id) (simp add: hd_rev)
      with 1 Cons False nl show ?thesis by (simp add: trim_def)
    qed
  qed
qed

lemma readTextLines_plain:
  "\<not> list_ex is_terminator s \<Longrightarrow> readTextLines s acc f = ([acc @ s], f)"
proof (induction s arbitrary: acc)
  case Nil
  show ?case by simp
next
  case (Cons c cs)
  then show ?case by (simp add: readTextLines.simps(2) is_terminator_def)
qed

section \<open>One line of \<open>parse\<close>\<close>

lemma indexOf_mem:
  "c \<in> set t \<Longrightarrow> indexOf t c = int (length (takeWhile (\<lambda>x. x \<noteq> c) t))"
  by (simp add: indexOf_def)

lemma indexOf_zero:
  "c \<in> set t \<Longrightarrow> indexOf t c = 0 \<longleftrightarrow> hd t = c"
  by (cases t) (auto simp: indexOf_def)

lemma indexOf_minus: "indexOf t c = - 1 \<longleftrightarrow> c \<notin> set t"
  by (simp add: indexOf_def)

lemma takeWhile_neq_less:
  "c \<in> set t \<Longrightarrow> length (takeWhile (\<lambda>x. x \<noteq> c) t) < length t"
  by (induction t) auto

lemma substring_left:
  "CHR ''='' \<in> set t \<Longrightarrow> substring t 0 (indexOf t (CHR ''='')) = left_hand t"
proof -
  assume a: "CHR ''='' \<in> set t"
  have "length (takeWhile (\<lambda>c. c \<noteq> CHR ''='') t) \<le> length t"
    by (rule length_takeWhile_le)
  then show ?thesis
    using a by (simp add: indexOf_def substring_def left_hand_def Let_def min_absorb1
        takeWhile_eq_take[symmetric])
qed

lemma substring_right:
  "CHR ''='' \<in> set t \<Longrightarrow> substring_from t (indexOf t (CHR ''='') + 1) = right_hand t"
proof -
  assume a: "CHR ''='' \<in> set t"
  let ?k = "length (takeWhile (\<lambda>c. c \<noteq> CHR ''='') t)"
  have lt: "?k < length t"
    using a by (rule takeWhile_neq_less)
  have n: "nat (int ?k + 1) = Suc ?k" by simp
  have "right_hand t = drop (Suc ?k) t"
    by (simp add: right_hand_def dropWhile_eq_drop)
  with lt show ?thesis
    using a by (simp add: indexOf_def substring_from_def substring_def Let_def n min_def max_def)
qed

lemma parse_line_key_value:
  assumes "\<not> isComment (trim l)" and "\<not> startsWith (trim l) ''[''"
    and "CHR ''='' \<in> set (trim l)" and "hd (trim l) \<noteq> CHR ''=''"
  shows "parse_line rv l n (cur, m) =
     (let t = trim l;
          m0 = (if pretty (formatting m) = None
                then m\<lparr>formatting := (formatting m)\<lparr>pretty :=
                       Some (endsWith (left_hand t) '' '' \<and> startsWith (right_hand t) '' '')\<rparr>\<rparr>
                else m);
          k = trim (left_hand t);
          v = trim (right_hand t);
          r = length (heap m)
      in case cur of
           Some c \<Rightarrow>
             (let h1 = heap m @ [LineValue n (Some (sec (heap m ! c))) k
                                   (rv k v (Some (sec (heap m ! c))))];
                  h2 = h1[c := map_set k r (h1 ! c)]
              in Inr (cur, m0\<lparr>lines := lines m @ [r], heap := h2[c := set_end n (h2 ! c)]\<rparr>))
         | None \<Rightarrow>
             Inr (cur, m0\<lparr>heap := heap m @ [LineValue n None k (rv k v None)],
                          global := AList.update k r (global m),
                          lines := lines m @ [r]\<rparr>))"
  using assms
  by (cases cur)
     (simp_all add: parse_line_def isSection_def Let_def alloc_def substring_left substring_right
        indexOf_zero indexOf_minus)

section \<open>Values and the default reviver\<close>

lemma parse_single_line:
  assumes "\<not> list_ex is_terminator s"
  shows "parse (JString s) rv m =
     (case parse_line (case rv of None \<Rightarrow> default_reviver | Some g \<Rightarrow> g) s 1 (None, m) of
        Inl e \<Rightarrow> Inl e
      | Inr st \<Rightarrow> Inr (snd st))"
  by (simp add: parse_def readTextLines_plain[OF assms] split: sum.splits)

lemma to_number_Nil: "to_number [] = Finite 0"
  by (simp add: to_number_def trim_Nil)

lemma default_reviver_Nil: "default_reviver k [] s = VNumber (Finite 0)"
  by (simp add: default_reviver_def to_number_Nil isNaN_def includes_char_def)

lemma takeWhile_snoc_neq: "c \<notin> set k \<Longrightarrow> takeWhile (\<lambda>x. x \<noteq> c) (k @ c # r) = k"
  by (induction k) auto

lemma dropWhile_snoc_neq: "c \<notin> set k \<Longrightarrow> dropWhile (\<lambda>x. x \<noteq> c) (k @ c # r) = c # r"
  by (induction k) auto

lemma startsWith_single: "startsWith s [c] \<longleftrightarrow> s \<noteq> [] \<and> hd s = c"
  by (cases s) (auto simp: startsWith_def)

lemma endsWith_single: "endsWith s [c] \<longleftrightarrow> s \<noteq> [] \<and> last s = c"
  by (cases s rule: rev_cases) (auto simp: endsWith_def)

lemma isComment_snoc:
  assumes "k \<noteq> []" and "c \<noteq> CHR ''/''"
  shows "isComment (k @ [c]) \<longleftrightarrow> isComment k"
proof (cases k)
  case Nil
  with assms show ?thesis by simp
next
  case (Cons a as)
  show ?thesis
  proof (cases as)
    case Nil
    with Cons assms(2) show ?thesis by (simp add: isComment_def startsWith_def)
  next
    case (Cons b bs)
    with \<open>k = a # as\<close> show ?thesis by (simp add: isComment_def startsWith_def)
  qed
qed

lemma plain_key_line:
  assumes "plain_key k"
  shows "trim (k @ ''='') = k @ ''=''"
    and "\<not> isComment (k @ ''='')"
    and "\<not> startsWith (k @ ''='') ''[''"
    and "hd (k @ ''='') \<noteq> CHR ''=''"
    and "left_hand (k @ ''='') = k"
    and "right_hand (k @ ''='') = []"
    and "\<not> list_ex is_terminator (k @ ''='')"
    and "\<not> endsWith k '' ''"
proof -
  from assms have ne: "k \<noteq> []" and tr: "trim k = k" and eq: "CHR ''='' \<notin> set k"
    and nt: "\<not> list_ex is_terminator k" and nc: "\<not> isComment k" and ns: "\<not> startsWith k ''[''"
    by (simp_all add: plain_key_def)
  from tr ne have ws: "\<not> is_white_space (hd k)" "\<not> is_white_space (last k)"
    by (simp_all add: trim_id_iff)
  have "\<not> is_white_space (CHR ''='')" by (simp add: is_white_space_def)
  with ws ne show "trim (k @ ''='') = k @ ''=''"
    by (simp add: trim_id_iff)
  from ne nc show "\<not> isComment (k @ ''='')"
    by (simp add: isComment_snoc)
  from ne ns show "\<not> startsWith (k @ ''='') ''[''"
    by (simp add: startsWith_single)
  from ne eq show "hd (k @ ''='') \<noteq> CHR ''=''"
    by (cases k) auto
  from eq show "left_hand (k @ ''='') = k"
    by (simp add: left_hand_def takeWhile_snoc_neq)
  from eq show "right_hand (k @ ''='') = []"
    by (simp add: right_hand_def dropWhile_snoc_neq)
  from nt show "\<not> list_ex is_terminator (k @ ''='')"
    by (simp add: is_terminator_def)
  from ws ne show "\<not> endsWith k '' ''"
    by (auto simp: endsWith_single is_white_space_def)
qed

lemma parse_empty_value:
  assumes "plain_key k"
  shows "parse (JString (k @ ''='')) None m =
     Inr ((if pretty (formatting m) = None
           then m\<lparr>formatting := (formatting m)\<lparr>pretty := Some False\<rparr>\<rparr> else m)
          \<lparr>heap := heap m @ [LineValue 1 None k (VNumber (Finite 0))],
           global := AList.update k (length (heap m)) (global m),
           lines := lines m @ [length (heap m)]\<rparr>)"
proof -
  note L = plain_key_line[OF assms]
  from assms have tr: "trim k = k" by (simp add: plain_key_def)
  have mem: "CHR ''='' \<in> set (trim (k @ ''=''))" by (simp add: L(1))
  have c: "\<not> isComment (trim (k @ ''=''))" "\<not> startsWith (trim (k @ ''='')) ''[''"
    "hd (trim (k @ ''='')) \<noteq> CHR ''=''"
    by (simp_all add: L(1) L(2) L(3) L(4))
  have sw: "\<not> startsWith [] '' ''" by (simp add: startsWith_def)
  have "parse_line default_reviver (k @ ''='') 1 (None, m) =
     Inr (None, (if pretty (formatting m) = None
           then m\<lparr>formatting := (formatting m)\<lparr>pretty := Some False\<rparr>\<rparr> else m)
          \<lparr>heap := heap m @ [LineValue 1 None k (VNumber (Finite 0))],
           global := AList.update k (length (heap m)) (global m),
           lines := lines m @ [length (heap m)]\<rparr>)"
    by (simp add: parse_line_key_value[OF c(1) c(2) mem c(3)] Let_def L(1) L(5) L(6) L(8) tr trim_Nil
          default_reviver_Nil sw)
  then show ?thesis
    by (simp add: parse_single_line[OF L(7)])
qed

text \<open>
  C9: for every key, parsing the text \<open>key=\<close> with the default reviver succeeds and
  stores for the key, in the global scope, a value record whose value is the number 0.
\<close>

theorem C9_empty_value_is_zero:
  assumes "plain_key k"
  shows "\<exists>m'. parse (JString (k @ ''='')) None m = Inr m' \<and>
              map_of (global m') k = Some (length (heap m)) \<and>
              heap m' ! length (heap m) = LineValue 1 None k (VNumber (Finite 0)) \<and>
              val (heap m' ! length (heap m)) \<noteq> VString []"
  by (simp add: parse_empty_value[OF assms] update_Some_unfold)

theorem C9_empty_value_is_zero_witness:
  "plain_key ''k'' \<and>
   parse (JString ''k='') None (new_IniMap no_formatting) =
     Inr \<lparr>global = [(''k'', 0)], sections = [], lines = [0],
          formatting = \<lparr>lineBreak = None, pretty = Some False\<rparr>,
          heap = [LineValue 1 None ''k'' (VNumber (Finite 0))]\<rparr> \<and>
   (\<exists>m'. parse (JString (''k'' @ ''='')) None (new_IniMap no_formatting) = Inr m' \<and>
         map_of (global m') ''k'' = Some (length (heap (new_IniMap no_formatting))) \<and>
         heap m' ! length (heap (new_IniMap no_formatting)) =
           LineValue 1 None ''k'' (VNumber (Finite 0)) \<and>
         val (heap m' ! length (heap (new_IniMap no_formatting))) \<noteq> VString [])"
proof -
  have k: "plain_key ''k''" by code_simp
  have p: "parse (JString ''k='') None (new_IniMap no_formatting) =
     Inr \<lparr>global = [(''k'', 0)], sections = [], lines = [0],
          formatting = \<lparr>lineBreak = None, pretty = Some False\<rparr>,
          heap = [LineValue 1 None ''k'' (VNumber (Finite 0))]\<rparr>"
    by code_simp
  from C9_empty_value_is_zero[OF k, of "new_IniMap no_formatting"] k p show ?thesis
    by blast
qed

text \<open>
  C5 as amended: for every input that is not a string, whatever the reviver and the
  model, \<open>parse\<close> fails at once: when the input converts to a string, with a
  \<open>SyntaxError\<close> whose message names that text and line 0; otherwise with the exception
  that the conversion throws. The failure is a \<open>TypeError\<close> exactly when the conversion
  of the input throws one, as for a symbol.
\<close>

theorem C5_non_string_input:
  "parse (JNonString c) rv m =
     Inl (case c of Inl thrown \<Rightarrow> thrown | Inr shown \<Rightarrow> SyntaxError (UnexpectedToken shown 0)) \<and>
   (throws_type_error (parse (JNonString c) rv m) \<longleftrightarrow> (\<exists>t. c = Inl (TypeError t)))"
proof (cases c)
  case (Inl thrown)
  then show ?thesis by (cases thrown) (simp_all add: parse_def throws_type_error_def)
next
  case (Inr shown)
  then show ?thesis by (simp add: parse_def throws_type_error_def)
qed

theorem C5_non_string_input_counterexample:
  "parse (JNonString (Inr ''42'')) None (new_IniMap no_formatting) =
     Inl (SyntaxError (UnexpectedToken ''42'' 0)) \<and>
   \<not> throws_type_error (parse (JNonString (Inr ''42'')) None (new_IniMap no_formatting))"
  by (simp add: parse_def throws_type_error_def)
















section \<open>Malformed lines\<close>

lemma isComment_nonempty: "\<not> isComment t \<Longrightarrow> t \<noteq> []"
  by (auto simp: isComment_def)

lemma substring_inner:
  assumes "startsWith t ''[''" and "endsWith t '']''"
  shows "substring t 1 (int (length t) - 1) = section_name t"
proof -
  from assms have ne: "t \<noteq> []" and h: "hd t = CHR ''[''" and l: "last t = CHR '']''"
    by (simp_all add: startsWith_single endsWith_single)
  have "length t \<noteq> 1"
  proof
    assume "length t = 1"
    then obtain c where "t = [c]" by (cases t) auto
    with h l show False by simp
  qed
  with ne have len: "2 \<le> length t" by (cases t; cases "tl t") auto
  then have n: "nat (int (length t) - 1) = length t - 1" by simp
  from len have 1: "min (nat 1) (length t) = 1" "min (length t - 1) (length t) = length t - 1"
    "max (1::nat) (length t - 1) = length t - 1" "min (1::nat) (length t - 1) = 1"
    by simp_all
  have "substring t 1 (int (length t) - 1) = take (length t - 1 - 1) (drop 1 t)"
    by (simp only: substring_def Let_def n 1)
  also have "\<dots> = butlast (tl t)"
    by (simp add: butlast_conv_take drop_Suc)
  finally show ?thesis by (simp add: section_name_def)
qed

lemma has_non_whitespace_iff: "has_non_whitespace s \<longleftrightarrow> \<not> list_all is_white_space s"
  by (auto simp: has_non_whitespace_def list_ex_iff list_all_iff)

lemma parse_line_section:
  assumes "\<not> isComment (trim l)" and "startsWith (trim l) ''[''"
  shows "parse_line rv l n (cur, m) =
     (if \<not> endsWith (trim l) '']'' then Inl (SyntaxError (UnexpectedEndOfSection n))
      else if list_all is_white_space (section_name (trim l))
      then Inl (SyntaxError (UnexpectedEmptySectionName n))
      else Inr (Some (length (heap m)),
             m\<lparr>heap := heap m @ [LineSection n (section_name (trim l)) [] n],
               lines := lines m @ [length (heap m)],
               sections := AList.update (section_name (trim l)) (length (heap m)) (sections m)\<rparr>))"
  using assms
  by (simp add: parse_line_def isSection_def Let_def alloc_def substring_inner
      has_non_whitespace_iff)

lemma parse_line_no_assignment:
  assumes "\<not> isComment (trim l)" and "\<not> startsWith (trim l) ''[''"
    and "CHR ''='' \<notin> set (trim l)"
  shows "parse_line rv l n (cur, m) = Inl (SyntaxError (UnexpectedToken [hd (trim l)] n))"
proof -
  from assms(1) have "trim l \<noteq> []" by (rule isComment_nonempty)
  then have "take 1 (trim l) = [hd (trim l)]" by (cases "trim l") auto
  with assms show ?thesis
    by (simp add: parse_line_def isSection_def Let_def indexOf_minus)
qed

lemma parse_line_empty_key:
  assumes "\<not> isComment (trim l)" and "\<not> startsWith (trim l) ''[''"
    and "CHR ''='' \<in> set (trim l)" and "hd (trim l) = CHR ''=''"
  shows "parse_line rv l n (cur, m) = Inl (SyntaxError (UnexpectedEmptyKeyName n))"
  using assms
  by (simp add: parse_line_def isSection_def Let_def indexOf_minus indexOf_zero)

lemma parse_line_error:
  "line_error (trim l) n = Some e \<Longrightarrow> parse_line rv l n st = Inl (SyntaxError e)"
proof -
  assume a: "line_error (trim l) n = Some e"
  obtain cur m where st: "st = (cur, m)" by (cases st)
  from a have nc: "\<not> isComment (trim l)" by (auto simp: line_error_def)
  then have ne: "trim l \<noteq> []" by (rule isComment_nonempty)
  show ?thesis
  proof (cases "startsWith (trim l) ''[''")
    case True
    with a nc ne show ?thesis unfolding st
      by (subst parse_line_section)
         (auto simp: line_error_def startsWith_single endsWith_single split: if_splits)
  next
    case False
    show ?thesis
    proof (cases "CHR ''='' \<in> set (trim l)")
      case True
      with a nc ne False have "hd (trim l) = CHR ''=''" and "e = UnexpectedEmptyKeyName n"
        by (auto simp: line_error_def startsWith_single split: if_splits)
      with nc False True show ?thesis unfolding st
        by (simp add: parse_line_empty_key)
    next
      case nomem: False
      with a nc ne False have "e = UnexpectedToken [hd (trim l)] n"
        by (auto simp: line_error_def startsWith_single split: if_splits)
      with nc False nomem show ?thesis unfolding st
        by (simp add: parse_line_no_assignment)
    qed
  qed
qed

lemma parse_line_ok:
  "line_error (trim l) n = None \<Longrightarrow> \<exists>st'. parse_line rv l n st = Inr st'"
proof -
  assume a: "line_error (trim l) n = None"
  obtain cur m where st: "st = (cur, m)" by (cases st)
  show ?thesis
  proof (cases "isComment (trim l)")
    case True
    then show ?thesis by (simp add: parse_line_comment)
  next
    case nc: False
    then have ne: "trim l \<noteq> []" by (rule isComment_nonempty)
    show ?thesis
    proof (cases "startsWith (trim l) ''[''")
      case True
      with a nc ne show ?thesis unfolding st
        by (subst parse_line_section)
           (auto simp: line_error_def startsWith_single endsWith_single split: if_splits)
    next
      case False
      with a nc ne have "CHR ''='' \<in> set (trim l)" and "hd (trim l) \<noteq> CHR ''=''"
        by (auto simp: line_error_def startsWith_single split: if_splits)
      with nc False show ?thesis unfolding st
        by (cases cur) (simp_all add: parse_line_key_value Let_def)
    qed
  qed
qed

lemma line_error_line: "line_error t n = Some e \<Longrightarrow> message_line e = n"
  by (auto simp: line_error_def split: if_splits)

lemma parse_lines_first_error:
  "case first_error ls n of
     Some e \<Rightarrow> parse_lines rv ls n st = Inl (SyntaxError e)
   | None \<Rightarrow> (\<exists>st'. parse_lines rv ls n st = Inr st')"
proof (induction ls arbitrary: n st)
  case Nil
  show ?case by simp
next
  case (Cons l ls)
  show ?case
  proof (cases "line_error (trim l) n")
    case (Some e)
    then show ?thesis by (simp add: parse_line_error)
  next
    case None
    then obtain st1 where 1: "parse_line rv l n st = Inr st1"
      using parse_line_ok by blast
    from Cons[of "n + 1" st1] None 1 show ?thesis by (auto split: option.splits)
  qed
qed

lemma first_error_iff:
  "first_error ls n = Some e \<longleftrightarrow>
     (\<exists>i<length ls. line_error (trim (ls ! i)) (n + int i) = Some e \<and>
                    (\<forall>j<i. line_error (trim (ls ! j)) (n + int j) = None))"
proof (induction ls arbitrary: n)
  case Nil
  show ?case by simp
next
  case (Cons l ls)
  show ?case
  proof (cases "line_error (trim l) n")
    case (Some e')
    have "(\<exists>i<length (l # ls). line_error (trim ((l # ls) ! i)) (n + int i) = Some e \<and>
                    (\<forall>j<i. line_error (trim ((l # ls) ! j)) (n + int j) = None)) \<longleftrightarrow> e' = e"
    proof
      assume "\<exists>i<length (l # ls). line_error (trim ((l # ls) ! i)) (n + int i) = Some e \<and>
                    (\<forall>j<i. line_error (trim ((l # ls) ! j)) (n + int j) = None)"
      then obtain i where i: "line_error (trim ((l # ls) ! i)) (n + int i) = Some e"
        and j: "\<forall>j<i. line_error (trim ((l # ls) ! j)) (n + int j) = None" by blast
      show "e' = e"
      proof (cases i)
        case 0
        with i Some show ?thesis by simp
      next
        case (Suc k)
        with j have "line_error (trim ((l # ls) ! 0)) (n + int 0) = None" by blast
        with Some show ?thesis by simp
      qed
    next
      assume "e' = e"
      with Some have "line_error (trim ((l # ls) ! 0)) (n + int 0) = Some e \<and>
          (\<forall>j<0. line_error (trim ((l # ls) ! j)) (n + int j) = None)" by simp
      then show "\<exists>i<length (l # ls). line_error (trim ((l # ls) ! i)) (n + int i) = Some e \<and>
                    (\<forall>j<i. line_error (trim ((l # ls) ! j)) (n + int j) = None)"
        by (intro exI[of _ 0]) simp
    qed
    with Some show ?thesis by simp
  next
    case None
    have shift: "n + 1 + int k = n + int (Suc k)" for k by simp
    have "(\<exists>i<length (l # ls). line_error (trim ((l # ls) ! i)) (n + int i) = Some e \<and>
                    (\<forall>j<i. line_error (trim ((l # ls) ! j)) (n + int j) = None)) \<longleftrightarrow>
          (\<exists>i<length ls. line_error (trim (ls ! i)) (n + 1 + int i) = Some e \<and>
                    (\<forall>j<i. line_error (trim (ls ! j)) (n + 1 + int j) = None))"
      (is "?L \<longleftrightarrow> ?R")
    proof
      assume ?L
      then obtain i where il: "i < length (l # ls)"
        and i: "line_error (trim ((l # ls) ! i)) (n + int i) = Some e"
        and j: "\<forall>j<i. line_error (trim ((l # ls) ! j)) (n + int j) = None" by blast
      from i None obtain k where k: "i = Suc k" by (cases i) auto
      have "\<forall>j<k. line_error (trim (ls ! j)) (n + 1 + int j) = None"
      proof (intro allI impI)
        fix j assume "j < k"
        then have "Suc j < i" using k by simp
        with j have "line_error (trim ((l # ls) ! Suc j)) (n + int (Suc j)) = None" by blast
        then show "line_error (trim (ls ! j)) (n + 1 + int j) = None"
          by (simp only: shift nth_Cons_Suc)
      qed
      moreover from i k have "line_error (trim (ls ! k)) (n + 1 + int k) = Some e"
        by (simp only: shift nth_Cons_Suc)
      moreover from il k have "k < length ls" by simp
      ultimately show ?R by blast
    next
      assume ?R
      then obtain k where kl: "k < length ls"
        and i: "line_error (trim (ls ! k)) (n + 1 + int k) = Some e"
        and j: "\<forall>j<k. line_error (trim (ls ! j)) (n + 1 + int j) = None" by blast
      have "\<forall>j<Suc k. line_error (trim ((l # ls) ! j)) (n + int j) = None"
      proof (intro allI impI)
        fix j assume jk: "j < Suc k"
        show "line_error (trim ((l # ls) ! j)) (n + int j) = None"
        proof (cases j)
          case 0
          with None show ?thesis by simp
        next
          case (Suc j')
          with jk have "j' < k" by simp
          with j have "line_error (trim (ls ! j')) (n + 1 + int j') = None" by blast
          with Suc show ?thesis by (simp only: shift nth_Cons_Suc)
        qed
      qed
      moreover from i have "line_error (trim ((l # ls) ! Suc k)) (n + int (Suc k)) = Some e"
        by (simp only: shift nth_Cons_Suc)
      moreover from kl have "Suc k < length (l # ls)" by simp
      ultimately show ?L by blast
    qed
    with None Cons[of "n + 1"] show ?thesis by simp
  qed
qed

lemma parse_first_error:
  "case first_error (fst (readTextLines s [] (formatting m))) 1 of
     Some e \<Rightarrow> parse (JString s) rv m = Inl (SyntaxError e)
   | None \<Rightarrow> (\<exists>m'. parse (JString s) rv m = Inr m')"
proof -
  define ls where "ls = fst (readTextLines s [] (formatting m))"
  define f' where "f' = snd (readTextLines s [] (formatting m))"
  define rv' where "rv' = (case rv of None \<Rightarrow> default_reviver | Some g \<Rightarrow> g)"
  have p: "parse (JString s) rv m =
      (case parse_lines rv' ls 1 (None, m\<lparr>formatting := f'\<rparr>) of
         Inl e \<Rightarrow> Inl e | Inr st \<Rightarrow> Inr (snd st))"
    by (simp add: parse_def ls_def f'_def rv'_def split_beta)
  show ?thesis
    using parse_lines_first_error[where ls = ls and n = 1 and rv = rv'
        and st = "(None, m\<lparr>formatting := f'\<rparr>)"]
    unfolding ls_def[symmetric] p
    by (auto split: option.splits)
qed


text \<open>
  C4: for every text, \<open>parse\<close> throws a \<open>SyntaxError\<close> exactly when some trimmed line
  that is no comment is malformed, and the error is the one of the first such line,
  with its line number counted from 1: a line starting with \<open>[\<close> that does not end
  with \<open>]\<close>, an empty or all-white-space section name, a line without \<open>=\<close> (the message
  holds its first character), or a line starting with \<open>=\<close>. Otherwise \<open>parse\<close> returns
  the model. (A reviver is a total function here: it does not throw.)
\<close>

theorem C4_parse_errors:
  "(case first_error (fst (readTextLines s [] (formatting m))) 1 of
      Some e \<Rightarrow> parse (JString s) rv m = Inl (SyntaxError e)
    | None \<Rightarrow> (\<exists>m'. parse (JString s) rv m = Inr m')) \<and>
   (first_error ls 1 = Some e \<longleftrightarrow>
      (\<exists>i<length ls. line_error (trim (ls ! i)) (1 + int i) = Some e \<and>
                     (\<forall>j<i. line_error (trim (ls ! j)) (1 + int j) = None))) \<and>
   (line_error t n = Some e' \<longrightarrow> message_line e' = n)"
  using parse_first_error[where s = s and m = m and rv = rv]
    first_error_iff[where ls = ls and n = 1 and e = e]
    line_error_line[where t = t and n = n and e = e']
  by blast

theorem C4_parse_errors_witness:
  "first_error (fst (readTextLines (''[section'' @ [CHR 0x0A] @ ''key=1'') []
      (formatting (new_IniMap no_formatting)))) 1 = Some (UnexpectedEndOfSection 1) \<and>
   parse (JString (''[section'' @ [CHR 0x0A] @ ''key=1'')) None (new_IniMap no_formatting) =
     Inl (SyntaxError (UnexpectedEndOfSection 1)) \<and>
   line_error ''keyonly'' 1 = Some (UnexpectedToken ''k'' 1) \<and>
   message_line (UnexpectedToken ''k'' 1) = 1 \<and>
   parse (JString ''keyonly'') None (new_IniMap no_formatting) =
     Inl (SyntaxError (UnexpectedToken ''k'' 1)) \<and>
   parse (JString ''[ ]'') None (new_IniMap no_formatting) =
     Inl (SyntaxError (UnexpectedEmptySectionName 1)) \<and>
   parse (JString ''=1'') None (new_IniMap no_formatting) =
     Inl (SyntaxError (UnexpectedEmptyKeyName 1))"
proof -
  let ?s = "''[section'' @ [CHR 0x0A] @ ''key=1''"
  have fe: "first_error (fst (readTextLines ?s [] (formatting (new_IniMap no_formatting)))) 1 =
      Some (UnexpectedEndOfSection 1)"
    by code_simp
  have le: "line_error ''keyonly'' 1 = Some (UnexpectedToken ''k'' 1)" by code_simp
  have a: "parse (JString ''keyonly'') None (new_IniMap no_formatting) =
     Inl (SyntaxError (UnexpectedToken ''k'' 1))" by code_simp
  have b: "parse (JString ''[ ]'') None (new_IniMap no_formatting) =
     Inl (SyntaxError (UnexpectedEmptySectionName 1))" by code_simp
  have c: "parse (JString ''=1'') None (new_IniMap no_formatting) =
     Inl (SyntaxError (UnexpectedEmptyKeyName 1))" by code_simp
  note T = C4_parse_errors[where s = ?s and m = "new_IniMap no_formatting" and rv = None
      and ls = "[]" and e = "UnexpectedEndOfSection 1" and t = "''keyonly''" and n = 1
      and e' = "UnexpectedToken ''k'' 1"]
  from T have "case first_error (fst (readTextLines ?s [] (formatting (new_IniMap no_formatting)))) 1 of
      Some e \<Rightarrow> parse (JString ?s) None (new_IniMap no_formatting) = Inl (SyntaxError e)
    | None \<Rightarrow> (\<exists>m'. parse (JString ?s) None (new_IniMap no_formatting) = Inr m')"
    by (rule conjunct1)
  then have p: "parse (JString ?s) None (new_IniMap no_formatting) =
     Inl (SyntaxError (UnexpectedEndOfSection 1))"
    by (simp only: fe option.case)
  from T le have ml: "message_line (UnexpectedToken ''k'' 1) = 1" by blast
  from fe p le ml a b c show ?thesis by blast
qed

lemma record_lineBreak_pretty: "pretty (record_lineBreak b f) = pretty f"
  by (simp add: record_lineBreak_def)

lemma readTextLines_pretty: "pretty (snd (readTextLines s acc f)) = pretty f"
proof (induction s acc f rule: readTextLines.induct)
  case (1 acc f)
  show ?case by simp
next
  case (2 c cs acc f)
  show ?case
  proof (cases "c = CHR 0x0A \<or> c = CHR 0x0D")
    case True
    from 2(1)[OF True refl refl refl] True show ?thesis
      by (simp add: readTextLines.simps(2) Let_def split_beta record_lineBreak_pretty)
  next
    case False
    from 2(2)[OF False] False show ?thesis
      by (simp add: readTextLines.simps(2))
  qed
qed

lemma parse_line_pretty:
  assumes "parse_line rv l n st = Inr st'"
  shows "pretty (formatting (snd st')) =
     (case pretty (formatting (snd st)) of
        Some b \<Rightarrow> Some b
      | None \<Rightarrow> if is_key_value_line (trim l) then Some (pretty_spacing (trim l)) else None)"
proof -
  obtain cur m where st: "st = (cur, m)" by (cases st)
  show ?thesis
  proof (cases "isComment (trim l)")
    case True
    with assms show ?thesis
      by (auto simp: parse_line_comment is_key_value_line_def split: option.splits)
  next
    case nc: False
    show ?thesis
    proof (cases "startsWith (trim l) ''[''")
      case True
      with assms nc show ?thesis unfolding st
        by (auto simp: parse_line_section is_key_value_line_def split: option.splits if_splits)
    next
      case False
      from assms have "line_error (trim l) n = None"
        using parse_line_error[where l = l and n = n and rv = rv and st = st]
        by (cases "line_error (trim l) n") auto
      with nc False have "CHR ''='' \<in> set (trim l)" and "hd (trim l) \<noteq> CHR ''=''"
        using isComment_nonempty[OF nc]
        by (auto simp: line_error_def startsWith_single split: if_splits)
      with assms nc False show ?thesis unfolding st
        by (cases cur)
           (auto simp: parse_line_key_value Let_def is_key_value_line_def pretty_spacing_def
              split: option.splits)
    qed
  qed
qed

lemma parse_lines_pretty:
  "parse_lines rv ls n st = Inr st' \<Longrightarrow>
   pretty (formatting (snd st')) = inferred_pretty (pretty (formatting (snd st))) ls"
proof (induction ls arbitrary: n st)
  case Nil
  then show ?case
    by (simp add: inferred_pretty_def first_key_value_def split: option.splits)
next
  case (Cons l ls)
  then obtain st1 where 1: "parse_line rv l n st = Inr st1"
    and 2: "parse_lines rv ls (n + 1) st1 = Inr st'"
    by (auto split: sum.splits)
  from Cons.IH[OF 2] parse_line_pretty[OF 1] show ?case
    by (auto simp: inferred_pretty_def first_key_value_def split: option.splits)
qed

text \<open>
  C7: during a successful parse the pretty flag is left as it is when it was configured;
  otherwise it is decided by the first key/value line alone, and is true exactly when
  the left-hand side of its \<open>=\<close> ends with a space and the right-hand side begins with
  one (both before they are trimmed); without a key/value line it stays undefined.
\<close>

theorem C7_pretty_inference:
  "parse (JString s) rv m = Inr m' \<longrightarrow>
     pretty (formatting m') =
       inferred_pretty (pretty (formatting m)) (fst (readTextLines s [] (formatting m)))"
proof
  assume ok: "parse (JString s) rv m = Inr m'"
  define ls where "ls = fst (readTextLines s [] (formatting m))"
  define f' where "f' = snd (readTextLines s [] (formatting m))"
  define rv' where "rv' = (case rv of None \<Rightarrow> default_reviver | Some g \<Rightarrow> g)"
  from ok obtain st where st: "parse_lines rv' ls 1 (None, m\<lparr>formatting := f'\<rparr>) = Inr st"
    and m': "m' = snd st"
    by (auto simp: parse_def ls_def f'_def rv'_def split_beta split: sum.splits)
  have "pretty f' = pretty (formatting m)"
    by (simp add: f'_def readTextLines_pretty)
  with parse_lines_pretty[OF st] m' show
    "pretty (formatting m') =
       inferred_pretty (pretty (formatting m)) (fst (readTextLines s [] (formatting m)))"
    by (simp add: ls_def)
qed

theorem C7_pretty_inference_witness:
  "parse (JString ''key = value'') None (new_IniMap no_formatting) =
     Inr \<lparr>global = [(''key'', 0)], sections = [], lines = [0],
          formatting = \<lparr>lineBreak = None, pretty = Some True\<rparr>,
          heap = [LineValue 1 None ''key'' (VString ''value'')]\<rparr> \<and>
   inferred_pretty (pretty (formatting (new_IniMap no_formatting)))
     (fst (readTextLines ''key = value'' [] (formatting (new_IniMap no_formatting)))) = Some True \<and>
   pretty (formatting \<lparr>global = [(''key'', 0)], sections = [], lines = [0],
          formatting = \<lparr>lineBreak = None, pretty = Some True\<rparr>,
          heap = [LineValue 1 None ''key'' (VString ''value'')]\<rparr>) =
     inferred_pretty (pretty (formatting (new_IniMap no_formatting)))
       (fst (readTextLines ''key = value'' [] (formatting (new_IniMap no_formatting)))) \<and>
   parse (JString ''key=value'') None (new_IniMap no_formatting) =
     Inr \<lparr>global = [(''key'', 0)], sections = [], lines = [0],
          formatting = \<lparr>lineBreak = None, pretty = Some False\<rparr>,
          heap = [LineValue 1 None ''key'' (VString ''value'')]\<rparr> \<and>
   parse (JString (''a=1'' @ [CHR 0x0A] @ ''b = 2'')) None (new_IniMap no_formatting) =
     Inr \<lparr>global = [(''a'', 0), (''b'', 1)], sections = [], lines = [0, 1],
          formatting = \<lparr>lineBreak = Some LF, pretty = Some False\<rparr>,
          heap = [LineValue 1 None ''a'' (VNumber (Finite 1)),
                  LineValue 2 None ''b'' (VNumber (Finite 2))]\<rparr>"
proof -
  let ?m = "\<lparr>global = [(''key'', 0)], sections = [], lines = [0],
          formatting = \<lparr>lineBreak = None, pretty = Some True\<rparr>,
          heap = [LineValue 1 None ''key'' (VString ''value'')]\<rparr>"
  have p: "parse (JString ''key = value'') None (new_IniMap no_formatting) = Inr ?m"
    by code_simp
  have i: "inferred_pretty (pretty (formatting (new_IniMap no_formatting)))
     (fst (readTextLines ''key = value'' [] (formatting (new_IniMap no_formatting)))) = Some True"
    by code_simp
  have q: "parse (JString ''key=value'') None (new_IniMap no_formatting) =
     Inr \<lparr>global = [(''key'', 0)], sections = [], lines = [0],
          formatting = \<lparr>lineBreak = None, pretty = Some False\<rparr>,
          heap = [LineValue 1 None ''key'' (VString ''value'')]\<rparr>"
    by code_simp
  have r: "parse (JString (''a=1'' @ [CHR 0x0A] @ ''b = 2'')) None (new_IniMap no_formatting) =
     Inr \<lparr>global = [(''a'', 0), (''b'', 1)], sections = [], lines = [0, 1],
          formatting = \<lparr>lineBreak = Some LF, pretty = Some False\<rparr>,
          heap = [LineValue 1 None ''a'' (VNumber (Finite 1)),
                  LineValue 2 None ''b'' (VNumber (Finite 2))]\<rparr>"
    by code_simp
  from C7_pretty_inference[where s = "''key = value''" and rv = None
      and m = "new_IniMap no_formatting" and m' = ?m] p
  have "pretty (formatting ?m) =
     inferred_pretty (pretty (formatting (new_IniMap no_formatting)))
       (fst (readTextLines ''key = value'' [] (formatting (new_IniMap no_formatting))))"
    by blast
  with p i q r show ?thesis by blast
qed

section \<open>Records and the store\<close>

lemma kind_set_num [simp]:
  "is_section (set_num n l) = is_section l"
  "is_value (set_num n l) = is_value l"
  "is_comment (set_num n l) = is_comment l"
  by (cases l; simp)+

lemma kind_set_end [simp]:
  "is_section (set_end n l) = is_section l"
  "is_value (set_end n l) = is_value l"
  "is_comment (set_end n l) = is_comment l"
  by (cases l; simp)+

lemma kind_set_val [simp]:
  "is_section (set_val v l) = is_section l"
  "is_value (set_val v l) = is_value l"
  "is_comment (set_val v l) = is_comment l"
  by (cases l; simp)+

lemma kind_map_set [simp]:
  "is_section (map_set k r l) = is_section l"
  "is_value (map_set k r l) = is_value l"
  "is_comment (map_set k r l) = is_comment l"
  by (cases l; simp)+

lemma kind_add [simp]:
  "is_section (add_num d l) = is_section l"
  "is_value (add_num d l) = is_value l"
  "is_comment (add_num d l) = is_comment l"
  "is_section (add_end d l) = is_section l"
  "is_value (add_end d l) = is_value l"
  "is_comment (add_end d l) = is_comment l"
  by (simp_all add: add_num_def add_end_def)

lemma num_updates [simp]:
  "num (set_num n l) = n"
  "num (set_end e l) = num l"
  "num (set_val v l) = num l"
  "num (map_set k r l) = num l"
  "num (add_num d l) = num l + d"
  "num (add_end d l) = num l"
  by (cases l; simp add: add_num_def add_end_def)+

lemma end_updates [simp]:
  "is_section l \<Longrightarrow> end_sec (set_num n l) = end_sec l"
  "is_section l \<Longrightarrow> end_sec (set_end e l) = e"
  "is_section l \<Longrightarrow> end_sec (map_set k r l) = end_sec l"
  "is_section l \<Longrightarrow> end_sec (add_num d l) = end_sec l"
  "is_section l \<Longrightarrow> end_sec (add_end d l) = end_sec l + d"
  by (cases l; simp add: add_num_def add_end_def)+

lemma sec_updates [simp]:
  "is_section l \<Longrightarrow> sec (set_num n l) = sec l"
  "is_section l \<Longrightarrow> sec (set_end e l) = sec l"
  "is_section l \<Longrightarrow> sec (map_set k r l) = sec l"
  "is_section l \<Longrightarrow> sec (add_num d l) = sec l"
  "is_section l \<Longrightarrow> sec (add_end d l) = sec l"
  by (cases l; simp add: add_num_def add_end_def)+

lemma map_sec_updates [simp]:
  "is_section l \<Longrightarrow> map_sec (set_num n l) = map_sec l"
  "is_section l \<Longrightarrow> map_sec (set_end e l) = map_sec l"
  "is_section l \<Longrightarrow> map_sec (map_set k r l) = AList.update k r (map_sec l)"
  "is_section l \<Longrightarrow> map_sec (add_num d l) = map_sec l"
  "is_section l \<Longrightarrow> map_sec (add_end d l) = map_sec l"
  by (cases l; simp add: add_num_def add_end_def)+

lemma value_updates [simp]:
  "is_value l \<Longrightarrow> sec_value (set_num n l) = sec_value l"
  "is_value l \<Longrightarrow> sec_value (add_num d l) = sec_value l"
  "is_value l \<Longrightarrow> key (set_num n l) = key l"
  "is_value l \<Longrightarrow> key (add_num d l) = key l"
  "is_value l \<Longrightarrow> val (set_num n l) = val l"
  "is_value l \<Longrightarrow> val (add_num d l) = val l"
  "is_value l \<Longrightarrow> val (set_val v l) = v"
  "is_value l \<Longrightarrow> key (set_val v l) = key l"
  "is_value l \<Longrightarrow> sec_value (set_val v l) = sec_value l"
  by (cases l; simp add: add_num_def add_end_def)+

lemma not_section_updates [simp]:
  "\<not> is_section l \<Longrightarrow> set_end e l = l"
  "\<not> is_section l \<Longrightarrow> add_end d l = l"
  "\<not> is_section l \<Longrightarrow> map_set k r l = l"
  "\<not> is_value l \<Longrightarrow> set_val v l = l"
  by (cases l; simp add: add_end_def)+

lemma same_content_refl [simp]: "same_content l l"
  by (simp add: same_content_def)

lemma same_content_trans: "same_content a b \<Longrightarrow> same_content b c \<Longrightarrow> same_content a c"
  by (simp add: same_content_def)

lemma same_content_updates [simp]:
  "same_content l (set_num n l)"
  "same_content l (set_end e l)"
  "same_content l (add_num d l)"
  "same_content l (add_end d l)"
  by (cases l; simp add: same_content_def add_num_def add_end_def)+

lemma same_content_fields:
  assumes "same_content l l'"
  shows "is_section l' = is_section l" and "is_value l' = is_value l"
    and "is_comment l' = is_comment l"
    and "is_section l \<Longrightarrow> sec l' = sec l \<and> map_sec l' = map_sec l"
    and "is_value l \<Longrightarrow> sec_value l' = sec_value l \<and> key l' = key l \<and> val l' = val l"
    and "is_comment l \<Longrightarrow> val_comment l' = val_comment l"
  using assms by (cases l; cases l'; simp add: same_content_def)+

text \<open>The whole store keeps its contents.\<close>

lemma similar_update:
  "list_all2 same_content h h' \<Longrightarrow> same_content (h' ! i) x \<Longrightarrow>
   list_all2 same_content h (h'[i := x])"
proof -
  assume a: "list_all2 same_content h h'" and b: "same_content (h' ! i) x"
  have "same_content (h ! j) (h'[i := x] ! j)" if "j < length h'" for j
  proof (cases "j = i")
    case True
    from a that have "same_content (h ! j) (h' ! j)" by (simp add: list_all2_conv_all_nth)
    with b True that show ?thesis by (auto intro: same_content_trans)
  next
    case False
    with a that show ?thesis by (simp add: list_all2_conv_all_nth)
  qed
  with a show ?thesis by (simp add: list_all2_conv_all_nth)
qed

lemma similar_update_fun:
  assumes "list_all2 same_content h h'" and "\<And>l. same_content l (f l)"
  shows "list_all2 same_content h (h'[i := f (h' ! i)])"
  using assms by (intro similar_update) simp_all

lemma shift_lines_similar:
  "list_all2 same_content h0 h \<Longrightarrow> list_all2 same_content h0 (shift_lines secs d ls upd h)"
proof (induction ls arbitrary: upd h)
  case Nil
  then show ?case by simp
next
  case (Cons l ls)
  define h1 where "h1 = h[l := add_num d (h ! l)]"
  define h2 where "h2 = (if is_section (h1 ! l) then h1[l := add_end d (h1 ! l)] else h1)"
  have 1: "list_all2 same_content h0 h1"
    unfolding h1_def using Cons.prems by (intro similar_update_fun) simp_all
  have 2: "list_all2 same_content h0 h2"
    unfolding h2_def using 1 by (auto intro!: similar_update_fun)
  have 3: "list_all2 same_content h0 (h2[r := add_end d (h2 ! r)])" for r
    using 2 by (intro similar_update_fun) simp_all
  have step: "shift_lines secs d (l # ls) upd h =
      (if (if is_section (h1 ! l) then False else upd) \<and> is_value (h2 ! l) \<and>
          sec_value (h2 ! l) \<noteq> None \<and> sec_value (h2 ! l) \<noteq> Some []
       then (case map_of secs (the (sec_value (h2 ! l))) of
               Some section \<Rightarrow>
                 shift_lines secs d ls False (h2[section := add_end d (h2 ! section)])
             | None \<Rightarrow> shift_lines secs d ls (if is_section (h1 ! l) then False else upd) h2)
       else shift_lines secs d ls (if is_section (h1 ! l) then False else upd) h2)"
    by (simp only: shift_lines.simps Let_def h1_def h2_def)
  show ?case
    unfolding step using Cons.IH[OF 2] Cons.IH[OF 3]
    by (simp split: option.splits)
qed

text \<open>The loop without the comment flag, on distinct references of the store.\<close>

lemma shift_lines_False_Cons:
  "l < length h \<Longrightarrow>
   shift_lines secs d (l # ls) False h = shift_lines secs d ls False (h[l := shift1 d (h ! l)])"
  by (simp add: Let_def shift1_def)

lemma shift_lines_False:
  assumes "distinct ls" and "\<forall>l\<in>set ls. l < length h"
  shows "length (shift_lines secs d ls False h) = length h \<and>
         (\<forall>r<length h. shift_lines secs d ls False h ! r =
            (if r \<in> set ls then shift1 d (h ! r) else h ! r))"
  using assms
proof (induction ls arbitrary: h)
  case Nil
  show ?case by simp
next
  case (Cons l ls)
  let ?h = "h[l := shift1 d (h ! l)]"
  from Cons.prems have l: "l < length h" and nl: "l \<notin> set ls" and d: "distinct ls"
    and b: "\<forall>x\<in>set ls. x < length ?h" by auto
  from Cons.IH[OF d b] l nl show ?case
    by (auto simp: shift_lines_False_Cons nth_list_update simp del: shift_lines.simps)
qed

section \<open>Insertion of a line\<close>

lemma rel_index_nat: "p \<le> n \<Longrightarrow> rel_index (int p) n = p"
  by (simp add: rel_index_def)

lemma appendOrDeleteLine_Add:
  assumes "\<not> is_comment (heap m ! v)" and "num (heap m ! v) = int p + 1"
    and "p \<le> length (lines m)"
  shows "appendOrDeleteLine v Add m = insert_line p v m"
proof -
  have 1: "splice_insert (lines m) (int p) v = take p (lines m) @ v # drop p (lines m)"
    using assms(3) by (simp add: splice_insert_def rel_index_nat)
  have "rel_index (int p + 1) (Suc (length (lines m))) = Suc p"
    using assms(3) by (simp add: rel_index_def)
  then have 2: "slice_from (take p (lines m) @ v # drop p (lines m)) (int p + 1) = drop p (lines m)"
    using assms(3) by (simp add: slice_from_def)
  show ?thesis
    using assms(1) by (simp add: appendOrDeleteLine_def insert_line_def Let_def assms(2) 1 2)
qed

lemma insert_line_simps [simp]:
  "lines (insert_line p v m) = take p (lines m) @ v # drop p (lines m)"
  "sections (insert_line p v m) = sections m"
  "global (insert_line p v m) = global m"
  "formatting (insert_line p v m) = formatting m"
  "length (heap (insert_line p v m)) = length (heap m)"
  using shift_lines_similar[of "heap m" "heap m" "sections m" 1 "drop p (lines m)" False]
  by (auto simp: insert_line_def list_all2_refl dest: list_all2_lengthD)

lemma insert_line_nth:
  assumes "distinct (lines m)" and "\<forall>r\<in>set (lines m). r < length (heap m)"
    and "r < length (heap m)"
  shows "heap (insert_line p v m) ! r =
     (if r \<in> set (drop p (lines m)) then shift1 1 (heap m ! r) else heap m ! r)"
proof -
  have d: "distinct (drop p (lines m))" using assms(1) by simp
  have b: "\<forall>l\<in>set (drop p (lines m)). l < length (heap m)"
    using assms(2) by (auto dest: in_set_dropD)
  from shift_lines_False[OF d b, of "sections m" 1] assms(3) show ?thesis
    by (simp add: insert_line_def)
qed

text \<open>In a contiguous document the records behind index \<open>p\<close> are those numbered above \<open>p\<close>.\<close>

lemma contiguous_nth:
  "contiguous m \<Longrightarrow> i < length (lines m) \<Longrightarrow> num (heap m ! (lines m ! i)) = int i + 1"
proof -
  assume c: "contiguous m" and i: "i < length (lines m)"
  from c have "line_numbers m ! i = map int [1..<Suc (length (lines m))] ! i"
    by (simp add: contiguous_def)
  with i show ?thesis by (simp add: line_numbers_def del: upt_Suc)
qed

lemma contiguousI:
  assumes "\<And>i. i < length (lines m) \<Longrightarrow> num (heap m ! (lines m ! i)) = int i + 1"
  shows "contiguous m"
  unfolding contiguous_def line_numbers_def
  by (rule nth_equalityI) (simp_all add: assms del: upt_Suc)

lemma in_drop_iff:
  assumes "distinct xs" and "i < length xs"
  shows "xs ! i \<in> set (drop p xs) \<longleftrightarrow> p \<le> i"
proof
  assume "xs ! i \<in> set (drop p xs)"
  then obtain j where j: "j < length (drop p xs)" and e: "drop p xs ! j = xs ! i"
    by (auto simp: in_set_conv_nth)
  then have "xs ! (p + j) = xs ! i" and "p + j < length xs" by auto
  with assms have "p + j = i" by (simp add: nth_eq_iff_index_eq)
  then show "p \<le> i" by simp
next
  assume "p \<le> i"
  with assms(2) have "drop p xs ! (i - p) = xs ! i" and "i - p < length (drop p xs)" by auto
  then show "xs ! i \<in> set (drop p xs)" by (metis nth_mem)
qed

lemma contiguous_drop:
  assumes "contiguous m" and "distinct (lines m)" and "r \<in> set (lines m)"
  shows "r \<in> set (drop p (lines m)) \<longleftrightarrow> int p + 1 \<le> num (heap m ! r)"
proof -
  from assms(3) obtain i where i: "i < length (lines m)" and r: "lines m ! i = r"
    by (auto simp: in_set_conv_nth)
  from contiguous_nth[OF assms(1) i] r have "num (heap m ! r) = int i + 1" by simp
  moreover from in_drop_iff[OF assms(2) i, of p] r
  have "r \<in> set (drop p (lines m)) \<longleftrightarrow> p \<le> i" by simp
  ultimately show ?thesis by simp
qed

lemma insert_line_contiguous:
  assumes c: "contiguous m" and d: "distinct (lines m)"
    and b: "\<forall>r\<in>set (lines m). r < length (heap m)"
    and v: "v < length (heap m)" "v \<notin> set (lines m)" "num (heap m ! v) = int p + 1"
    and p: "p \<le> length (lines m)"
  shows "contiguous (insert_line p v m)"
    and "distinct (lines (insert_line p v m))"
    and "\<forall>r\<in>set (lines (insert_line p v m)). r < length (heap (insert_line p v m))"
proof -
  let ?m' = "insert_line p v m"
  show "contiguous ?m'"
  proof (rule contiguousI)
    fix i assume i: "i < length (lines ?m')"
    then have il: "i \<le> length (lines m)" using p by simp
    consider "i < p" | "i = p" | "p < i" by linarith
    then show "num (heap ?m' ! (lines ?m' ! i)) = int i + 1"
    proof cases
      case 1
      then have l: "lines ?m' ! i = lines m ! i" and im: "i < length (lines m)"
        using p by (simp_all add: nth_append)
      from im b have r: "lines m ! i < length (heap m)" by simp
      from in_drop_iff[OF d im, of p] 1 have "lines m ! i \<notin> set (drop p (lines m))" by simp
      with insert_line_nth[OF d b r, of p v] contiguous_nth[OF c im] l show ?thesis by simp
    next
      case 2
      then have l: "lines ?m' ! i = v" using p by (simp add: nth_append)
      from v(2) have "v \<notin> set (drop p (lines m))" by (auto dest: in_set_dropD)
      with insert_line_nth[OF d b v(1), of p v] v(3) l 2 show ?thesis by simp
    next
      case 3
      then obtain j where j: "i = Suc j" and pj: "p \<le> j" by (cases i) auto
      with i p have jm: "j < length (lines m)" by simp
      from j pj p have l: "lines ?m' ! i = lines m ! j"
        by (simp add: nth_append min_absorb2 Suc_diff_le)
      from jm b have r: "lines m ! j < length (heap m)" by simp
      from in_drop_iff[OF d jm, of p] pj have "lines m ! j \<in> set (drop p (lines m))" by simp
      with insert_line_nth[OF d b r, of p v] contiguous_nth[OF c jm] l j show ?thesis
        by (simp add: shift1_def)
    qed
  qed
  have "set (take p (lines m)) \<inter> set (drop p (lines m)) = {}"
    using d by (metis append_take_drop_id distinct_append)
  with d v(2) show "distinct (lines ?m')"
    by (auto dest: in_set_takeD in_set_dropD)
  from b v(1) show "\<forall>r\<in>set (lines ?m'). r < length (heap ?m')"
    by (auto dest: in_set_takeD in_set_dropD)
qed

section \<open>The first section and \<open>#appendValue\<close>\<close>

lemma first_section_cong:
  "\<forall>r\<in>set ls. is_section (h ! r) = is_section (h' ! r) \<Longrightarrow>
   first_section h ls i = first_section h' ls i"
  by (induction ls arbitrary: i) simp_all

lemma first_section_None:
  "first_section h ls i = None \<longleftrightarrow> (\<forall>r\<in>set ls. \<not> is_section (h ! r))"
  by (induction ls arbitrary: i) simp_all

lemma first_section_Some:
  "first_section h ls i = Some j \<Longrightarrow>
   i \<le> j \<and> j - i < length ls \<and> is_section (h ! (ls ! (j - i))) \<and>
   (\<forall>k<j - i. \<not> is_section (h ! (ls ! k)))"
proof (induction ls arbitrary: i)
  case Nil
  then show ?case by simp
next
  case (Cons l ls)
  show ?case
  proof (cases "is_section (h ! l)")
    case True
    with Cons.prems show ?thesis by simp
  next
    case False
    with Cons.prems have "first_section h ls (Suc i) = Some j" by simp
    from Cons.IH[OF this] have ij: "Suc i \<le> j" and jl: "j - Suc i < length ls"
      and s: "is_section (h ! (ls ! (j - Suc i)))"
      and n: "\<forall>k<j - Suc i. \<not> is_section (h ! (ls ! k))" by auto
    from ij have e: "j - i = Suc (j - Suc i)" by simp
    have "\<forall>k<j - i. \<not> is_section (h ! ((l # ls) ! k))"
    proof (intro allI impI)
      fix k assume k: "k < j - i"
      show "\<not> is_section (h ! ((l # ls) ! k))"
      proof (cases k)
        case 0
        with False show ?thesis by simp
      next
        case (Suc k')
        with k e have "k' < j - Suc i" by simp
        with n Suc show ?thesis by simp
      qed
    qed
    with ij jl s e show ?thesis by simp
  qed
qed

lemma first_section_index_le: "first_section_index m \<le> length (lines m)"
proof (cases "first_section (heap m) (lines m) 0")
  case None
  then show ?thesis by (simp add: first_section_index_def)
next
  case (Some j)
  from first_section_Some[OF Some] Some show ?thesis
    by (simp add: first_section_index_def)
qed

lemma before_first_section:
  assumes "i < first_section_index m" and "i < length (lines m)"
  shows "\<not> is_section (heap m ! (lines m ! i))"
proof (cases "first_section (heap m) (lines m) 0")
  case None
  with assms(2) show ?thesis by (simp add: first_section_None)
next
  case (Some j)
  from first_section_Some[OF Some] Some assms(1) show ?thesis
    by (simp add: first_section_index_def)
qed

lemma section_behind_first:
  assumes "distinct (lines m)" and "r \<in> set (lines m)" and "is_section (heap m ! r)"
  shows "r \<in> set (drop (first_section_index m) (lines m))"
proof -
  from assms(2) obtain i where i: "i < length (lines m)" and r: "lines m ! i = r"
    by (auto simp: in_set_conv_nth)
  from before_first_section[of i m] i r assms(3) have "first_section_index m \<le> i"
    by (auto simp: not_less[symmetric])
  with in_drop_iff[OF assms(1) i, of "first_section_index m"] r show ?thesis by simp
qed

lemma first_section_index_heap:
  assumes "\<forall>r\<in>set (lines m). is_section (h ! r) = is_section (heap m ! r)"
  shows "first_section_index (m\<lparr>heap := h\<rparr>) = first_section_index m"
  using first_section_cong[of "lines m" h "heap m" 0] assms
  by (simp add: first_section_index_def split: option.splits)

lemma appendValue_global:
  assumes "v < length (heap m)" and "is_value (heap m ! v)"
    and "sec_value (heap m ! v) = None \<or> sec_value (heap m ! v) = Some []"
  shows "appendValue v m =
     insert_line (first_section_index m) v
       (m\<lparr>heap := (heap m)[v := set_num (int (first_section_index m) + 1) (heap m ! v)]\<rparr>)"
proof (cases "lines m = []")
  case True
  then have "first_section_index m = 0" by (simp add: first_section_index_def)
  with True show ?thesis
    by (simp add: appendValue_def insert_line_def)
next
  case False
  let ?p = "first_section_index m"
  let ?m1 = "m\<lparr>heap := (heap m)[v := set_num (int ?p + 1) (heap m ! v)]\<rparr>"
  have n: "(case first_section (heap m) (lines m) 0 of
              Some i \<Rightarrow> int i + 1 | None \<Rightarrow> int (length (lines m)) + 1) = int ?p + 1"
    by (simp add: first_section_index_def split: option.splits)
  have "appendOrDeleteLine v Add ?m1 = insert_line ?p v ?m1"
    using assms(1,2) first_section_index_le[of m]
    by (intro appendOrDeleteLine_Add) (auto simp: Line.disc_eq_case split: Line.splits)
  with False assms(3) show ?thesis
    by (auto simp: appendValue_def Let_def n)
qed

lemma appendValue_section:
  assumes "lines m \<noteq> []" and "sec_value (heap m ! v) = Some s" and "s \<noteq> []"
    and "\<not> is_comment (heap m ! v)" and "num (heap m ! v) = int p + 1"
    and "p \<le> length (lines m)"
  shows "appendValue v m = insert_line p v m"
  using assms by (simp add: appendValue_def appendOrDeleteLine_Add)

section \<open>The two branches of \<open>set\<close>\<close>

lemma set_global_eq:
  assumes "\<forall>r\<in>set (lines m). r < length (heap m)"
  shows "set_global k v m =
     (insert_line (first_section_index m) (length (heap m))
        (m\<lparr>heap := heap m @ [LineValue (int (first_section_index m) + 1) None k v]\<rparr>))
     \<lparr>global := AList.update k (length (heap m)) (global m)\<rparr>"
proof -
  let ?m1 = "m\<lparr>heap := heap m @ [LineValue 0 None k v]\<rparr>"
  have f: "first_section_index ?m1 = first_section_index m"
    using assms by (intro first_section_index_heap) (simp add: nth_append)
  have "appendValue (length (heap m)) ?m1 =
      insert_line (first_section_index ?m1) (length (heap m))
        (?m1\<lparr>heap := (heap ?m1)[length (heap m) :=
            set_num (int (first_section_index ?m1) + 1) (heap ?m1 ! length (heap m))]\<rparr>)"
    by (intro appendValue_global) simp_all
  then show ?thesis
    by (simp add: set_global_def alloc_def Let_def f)
qed

lemma set_section_existing:
  assumes "map_of (sections m) s = Some sr" and "map_of (map_sec (heap m ! sr)) k = Some vr"
  shows "set_section s k v m = m\<lparr>heap := (heap m)[vr := set_val v (heap m ! vr)]\<rparr>"
  using assms by (simp add: set_section_def getOrCreateSection_def)

lemma set_section_new_key:
  assumes "map_of (sections m) s = Some sr" and "map_of (map_sec (heap m ! sr)) k = None"
    and "sr < length (heap m)" and "is_section (heap m ! sr)" and "sec (heap m ! sr) = s"
    and "s \<noteq> []" and "lines m \<noteq> []"
    and "end_sec (heap m ! sr) = int p" and "p \<le> length (lines m)"
  shows "set_section s k v m =
     (let m3 = insert_line p (length (heap m))
                 (m\<lparr>heap := (heap m)[sr := add_end 1 (heap m ! sr)] @
                              [LineValue (int p + 1) (Some s) k v]\<rparr>)
      in m3\<lparr>heap := (heap m3)[sr := map_set k (length (heap m)) (heap m3 ! sr)]\<rparr>)"
proof -
  let ?h1 = "(heap m)[sr := add_end 1 (heap m ! sr)]"
  let ?m2 = "m\<lparr>heap := ?h1 @ [LineValue (int p + 1) (Some s) k v]\<rparr>"
  have a: "appendValue (length (heap m)) ?m2 = insert_line p (length (heap m)) ?m2"
    using assms(6,7,9) by (intro appendValue_section[where s = s]) (simp_all add: nth_append)
  from assms(3,4,5,8) have e: "end_sec (?h1 ! sr) = int p + 1" "sec (?h1 ! sr) = s" by simp_all
  show ?thesis
    using assms(1,2)
    by (simp add: set_section_def getOrCreateSection_def Let_def alloc_def e a)
qed

lemma set_section_new_key_unnamed:
  assumes "map_of (sections m) [] = Some sr" and "map_of (map_sec (heap m ! sr)) k = None"
    and "sr < length (heap m)" and "is_section (heap m ! sr)" and "sec (heap m ! sr) = []"
    and "\<forall>r\<in>set (lines m). r < length (heap m)"
  shows "set_section [] k v m =
     (let m3 = insert_line (first_section_index m) (length (heap m))
                 (m\<lparr>heap := (heap m)[sr := add_end 1 (heap m ! sr)] @
                              [LineValue (int (first_section_index m) + 1) (Some []) k v]\<rparr>)
      in m3\<lparr>heap := (heap m3)[sr := map_set k (length (heap m)) (heap m3 ! sr)]\<rparr>)"
proof -
  let ?h1 = "(heap m)[sr := add_end 1 (heap m ! sr)]"
  let ?m2 = "m\<lparr>heap := ?h1 @ [LineValue (end_sec (?h1 ! sr)) (Some []) k v]\<rparr>"
  have f: "first_section_index ?m2 = first_section_index m"
    using assms(3,6) by (intro first_section_index_heap) (auto simp: nth_append nth_list_update)
  have a: "appendValue (length (heap m)) ?m2 =
      insert_line (first_section_index ?m2) (length (heap m))
        (?m2\<lparr>heap := (heap ?m2)[length (heap m) :=
            set_num (int (first_section_index ?m2) + 1) (heap ?m2 ! length (heap m))]\<rparr>)"
    by (intro appendValue_global) (simp_all add: nth_append)
  from assms(3,4,5) have e: "sec (?h1 ! sr) = []" by simp
  have u: "(?h1 @ [x])[length (heap m) := y] = ?h1 @ [y]" for x y
    using list_update_length[of ?h1 x "[]" y] by simp
  show ?thesis
    using assms(1,2)
    by (simp add: set_section_def getOrCreateSection_def Let_def alloc_def e a f nth_append u)
qed

lemma set_section_new_section:
  assumes "map_of (sections m) s = None"
  shows "set_section s k v m =
     set_section s k v
       (m\<lparr>heap := heap m @ [LineSection (int (length (lines m)) + 1) s []
                               (int (length (lines m)) + 1)],
          lines := lines m @ [length (heap m)],
          sections := AList.update s (length (heap m)) (sections m)\<rparr>)"
  using assms
  by (simp add: set_section_def getOrCreateSection_def Let_def alloc_def update_conv')

section \<open>The global branch of \<open>set\<close>\<close>

lemma similar_refl: "list_all2 same_content h h"
  by (simp add: list_all2_refl)

lemma appendOrDeleteLine_similar:
  "list_all2 same_content (heap m) (heap (appendOrDeleteLine v x m)) \<and>
   sections (appendOrDeleteLine v x m) = sections m \<and>
   global (appendOrDeleteLine v x m) = global m"
  by (simp add: appendOrDeleteLine_def Let_def shift_lines_similar similar_refl)

lemma appendValue_similar:
  "list_all2 same_content (heap m) (heap (appendValue v m)) \<and>
   sections (appendValue v m) = sections m \<and>
   global (appendValue v m) = global m"
proof -
  have 1: "list_all2 same_content (heap m) ((heap m)[v := set_num n (heap m ! v)])" for n
    by (intro similar_update_fun similar_refl) simp
  have 2: "list_all2 same_content (heap m)
      (heap (appendOrDeleteLine v Add (m\<lparr>heap := (heap m)[v := set_num n (heap m ! v)]\<rparr>)))" for n
    using appendOrDeleteLine_similar[of "m\<lparr>heap := (heap m)[v := set_num n (heap m ! v)]\<rparr>" v Add]
      1[of n]
    by (auto simp: list_all2_conv_all_nth intro: same_content_trans)
  show ?thesis
    using 1 2 appendOrDeleteLine_similar[of m v Add]
    by (simp add: appendValue_def Let_def appendOrDeleteLine_similar)
qed

lemma set_global_effect:
  "sections (set_global k v m) = sections m \<and>
   global (set_global k v m) = AList.update k (length (heap m)) (global m) \<and>
   list_all2 same_content (heap m @ [LineValue 0 None k v]) (heap (set_global k v m))"
  using appendValue_similar[of "m\<lparr>heap := heap m @ [LineValue 0 None k v]\<rparr>" "length (heap m)"]
  by (simp add: set_global_def alloc_def Let_def)

text \<open>
  C8: for all strings \<open>s\<close> and \<open>k\<close> the call \<open>set(s, k, undefined)\<close> takes the global
  branch: it stores a new global value record with key \<open>s\<close> and the string \<open>k\<close> as its
  value, registered in \<open>#global\<close> under \<open>s\<close>; \<open>#sections\<close> is unchanged and every record
  that existed keeps its content (only line numbers and section ends move), so no key
  map of a section is created or updated.
\<close>

theorem C8_undefined_third_argument:
  "IniMap_set s (VString k) VUndefined m = set_global s (VString k) m \<and>
   sections (IniMap_set s (VString k) VUndefined m) = sections m \<and>
   map_of (global (IniMap_set s (VString k) VUndefined m)) s = Some (length (heap m)) \<and>
   length (heap (IniMap_set s (VString k) VUndefined m)) = Suc (length (heap m)) \<and>
   same_content (LineValue 0 None s (VString k))
     (heap (IniMap_set s (VString k) VUndefined m) ! length (heap m)) \<and>
   (\<forall>r<length (heap m).
      same_content (heap m ! r) (heap (IniMap_set s (VString k) VUndefined m) ! r) \<and>
      (is_section (heap m ! r) \<longrightarrow>
         is_section (heap (IniMap_set s (VString k) VUndefined m) ! r) \<and>
         map_sec (heap (IniMap_set s (VString k) VUndefined m) ! r) = map_sec (heap m ! r)))"
proof -
  let ?m' = "set_global s (VString k) m"
  have d: "IniMap_set s (VString k) VUndefined m = ?m'"
    by (simp add: IniMap_set_def)
  note e = set_global_effect[of s "VString k" m]
  from e have sim: "list_all2 same_content (heap m @ [LineValue 0 None s (VString k)]) (heap ?m')"
    by simp
  then have len: "length (heap ?m') = Suc (length (heap m))"
    by (auto dest: list_all2_lengthD)
  from sim have nth: "same_content ((heap m @ [LineValue 0 None s (VString k)]) ! r) (heap ?m' ! r)"
    if "r < Suc (length (heap m))" for r
    using that by (simp add: list_all2_conv_all_nth)
  from nth[of "length (heap m)"] have new:
    "same_content (LineValue 0 None s (VString k)) (heap ?m' ! length (heap m))" by simp
  have old: "same_content (heap m ! r) (heap ?m' ! r)" if "r < length (heap m)" for r
    using nth[of r] that by (simp add: nth_append)
  have "is_section (heap ?m' ! r) \<and> map_sec (heap ?m' ! r) = map_sec (heap m ! r)"
    if "r < length (heap m)" and "is_section (heap m ! r)" for r
    using same_content_fields(1,4)[OF old[OF that(1)]] that(2) by simp
  with e len new old show ?thesis
    unfolding d by (simp add: update_conv')
qed

theorem C8_undefined_third_argument_witness:
  "IniMap_set ''s'' (VString ''k'') VUndefined
     (IniMap_set ''s'' (VString ''k'') (VNumber (Finite 1)) (new_IniMap no_formatting)) =
   \<lparr>global = [(''s'', 2)], sections = [(''s'', 0)], lines = [2, 0, 1],
    formatting = \<lparr>lineBreak = None, pretty = None\<rparr>,
    heap = [LineSection 2 ''s'' [(''k'', 1)] 3,
            LineValue 3 (Some ''s'') ''k'' (VNumber (Finite 1)),
            LineValue 1 None ''s'' (VString ''k'')]\<rparr> \<and>
   sections (IniMap_set ''s'' (VString ''k'') VUndefined
     (IniMap_set ''s'' (VString ''k'') (VNumber (Finite 1)) (new_IniMap no_formatting))) =
   sections (IniMap_set ''s'' (VString ''k'') (VNumber (Finite 1)) (new_IniMap no_formatting))"
proof -
  let ?m = "IniMap_set ''s'' (VString ''k'') (VNumber (Finite 1)) (new_IniMap no_formatting)"
  have 1: "IniMap_set ''s'' (VString ''k'') VUndefined ?m =
   \<lparr>global = [(''s'', 2)], sections = [(''s'', 0)], lines = [2, 0, 1],
    formatting = \<lparr>lineBreak = None, pretty = None\<rparr>,
    heap = [LineSection 2 ''s'' [(''k'', 1)] 3,
            LineValue 3 (Some ''s'') ''k'' (VNumber (Finite 1)),
            LineValue 1 None ''s'' (VString ''k'')]\<rparr>"
    by code_simp
  from C8_undefined_third_argument[where s = "''s''" and k = "''k''" and m = ?m]
  have "sections (IniMap_set ''s'' (VString ''k'') VUndefined ?m) = sections ?m"
    by blast
  with 1 show ?thesis by blast
qed

section \<open>Consistent models\<close>

lemma consistentD:
  assumes "consistent m"
  shows "distinct (lines m)" and "\<forall>r\<in>set (lines m). r < length (heap m)"
    and "contiguous m" and "\<forall>e\<in>set (sections m). sound_section m e"
  using assms by (simp_all add: consistent_def list_all_iff)

lemma consistentI:
  assumes "distinct (lines m)" and "\<forall>r\<in>set (lines m). r < length (heap m)"
    and "contiguous m" and "\<forall>e\<in>set (sections m). sound_section m e"
  shows "consistent m"
  using assms by (simp add: consistent_def list_all_iff)

lemma sound_sectionD:
  assumes "sound_section m (s, sr)"
  shows "sr \<in> set (lines m)" and "is_section (heap m ! sr)" and "sec (heap m ! sr) = s"
    and "s \<noteq> [] \<Longrightarrow> num (heap m ! sr) \<le> end_sec (heap m ! sr)"
    and "s \<noteq> [] \<Longrightarrow> end_sec (heap m ! sr) \<le> int (length (lines m))"
    and "\<forall>kv\<in>set (map_sec (heap m ! sr)). snd kv < length (heap m) \<and> is_value (heap m ! snd kv)"
  using assms by (simp_all add: sound_section_def list_all_iff)

lemma consistent_section:
  assumes "consistent m" and "map_of (sections m) s = Some sr"
  shows "sound_section m (s, sr)" and "sr < length (heap m)"
proof -
  from assms(2) have "(s, sr) \<in> set (sections m)" by (rule map_of_SomeD)
  with consistentD(4)[OF assms(1)] show 1: "sound_section m (s, sr)" by blast
  from sound_sectionD(1)[OF 1] consistentD(2)[OF assms(1)] show "sr < length (heap m)" by blast
qed

lemma consistent_key:
  assumes "consistent m" and "map_of (sections m) s = Some sr"
    and "map_of (map_sec (heap m ! sr)) k = Some vr"
  shows "vr < length (heap m)" and "is_value (heap m ! vr)" and "vr \<noteq> sr"
proof -
  note S = sound_sectionD[OF consistent_section(1)[OF assms(1,2)]]
  from assms(3) have "(k, vr) \<in> set (map_sec (heap m ! sr))" by (rule map_of_SomeD)
  with S(6) show "vr < length (heap m)" and v: "is_value (heap m ! vr)" by auto
  from v S(2) show "vr \<noteq> sr" by (auto simp: Line.disc_eq_case split: Line.splits)
qed

lemma set_val_idem: "set_val v (set_val v l) = set_val v l"
  by (cases l) simp_all

text \<open>
  C1 as amended: in every state, when the key \<open>k\<close> exists in the key map of the section
  \<open>s\<close> and the value \<open>v\<close> is not undefined, \<open>set(s, k, v)\<close> replaces only the value of the
  existing record: the lines and the number of that record are unchanged, the stored
  value is \<open>v\<close>, and a second call with the same arguments changes nothing. The state is
  only required to be well typed at the two references followed: the entry of \<open>#sections\<close>
  refers to a section record and the entry of its key map to a value record of the
  store, as the types of the maps ensure for every object.
\<close>

theorem C1_set_existing_section_key:
  assumes "v \<noteq> VUndefined"
    and "map_of (sections m) s = Some sr" and "is_section (heap m ! sr)"
    and "map_of (map_sec (heap m ! sr)) k = Some vr"
    and "vr < length (heap m)" and "is_value (heap m ! vr)"
  shows "IniMap_set s (VString k) v m = m\<lparr>heap := (heap m)[vr := set_val v (heap m ! vr)]\<rparr> \<and>
         lines (IniMap_set s (VString k) v m) = lines m \<and>
         length (lines (IniMap_set s (VString k) v m)) = length (lines m) \<and>
         num (heap (IniMap_set s (VString k) v m) ! vr) = num (heap m ! vr) \<and>
         val (heap (IniMap_set s (VString k) v m) ! vr) = v \<and>
         IniMap_set s (VString k) v (IniMap_set s (VString k) v m) = IniMap_set s (VString k) v m"
proof -
  let ?m' = "m\<lparr>heap := (heap m)[vr := set_val v (heap m ! vr)]\<rparr>"
  from assms(3,6) have ne: "vr \<noteq> sr"
    by (auto simp: Line.disc_eq_case split: Line.splits)
  have 1: "IniMap_set s (VString k) v m = ?m'"
    using assms(1) by (simp add: IniMap_set_def set_section_existing[OF assms(2,4)])
  have s': "map_of (sections ?m') s = Some sr" using assms(2) by simp
  have k': "map_of (map_sec (heap ?m' ! sr)) k = Some vr"
    using assms(4) ne by simp
  have 2: "IniMap_set s (VString k) v ?m' = ?m'"
    using assms(1,5)
    by (simp add: IniMap_set_def set_section_existing[OF s' k'] set_val_idem)
  from assms(5,6) have "num (heap ?m' ! vr) = num (heap m ! vr)" "val (heap ?m' ! vr) = v"
    by simp_all
  with 1 2 show ?thesis by simp
qed

theorem C1_set_existing_section_key_witness:
  "parse (JString ''x=1'') None
     \<lparr>global = [], sections = [(''s'', 0)], lines = [0, 1],
      formatting = \<lparr>lineBreak = Some LF, pretty = Some False\<rparr>,
      heap = [LineSection 1 ''s'' [(''k'', 1)] 2,
              LineValue 2 (Some ''s'') ''k'' (VNumber (Finite 1))]\<rparr> =
     Inr \<lparr>global = [(''x'', 2)], sections = [(''s'', 0)], lines = [0, 1, 2],
      formatting = \<lparr>lineBreak = Some LF, pretty = Some False\<rparr>,
      heap = [LineSection 1 ''s'' [(''k'', 1)] 2,
              LineValue 2 (Some ''s'') ''k'' (VNumber (Finite 1)),
              LineValue 1 None ''x'' (VNumber (Finite 1))]\<rparr> \<and>
   line_numbers \<lparr>global = [(''x'', 2)], sections = [(''s'', 0)], lines = [0, 1, 2],
      formatting = \<lparr>lineBreak = Some LF, pretty = Some False\<rparr>,
      heap = [LineSection 1 ''s'' [(''k'', 1)] 2,
              LineValue 2 (Some ''s'') ''k'' (VNumber (Finite 1)),
              LineValue 1 None ''x'' (VNumber (Finite 1))]\<rparr> = [1, 2, 1] \<and>
   IniMap_set ''s'' (VString ''k'') (VNumber (Finite 2))
     \<lparr>global = [(''x'', 2)], sections = [(''s'', 0)], lines = [0, 1, 2],
      formatting = \<lparr>lineBreak = Some LF, pretty = Some False\<rparr>,
      heap = [LineSection 1 ''s'' [(''k'', 1)] 2,
              LineValue 2 (Some ''s'') ''k'' (VNumber (Finite 1)),
              LineValue 1 None ''x'' (VNumber (Finite 1))]\<rparr> =
     \<lparr>global = [(''x'', 2)], sections = [(''s'', 0)], lines = [0, 1, 2],
      formatting = \<lparr>lineBreak = Some LF, pretty = Some False\<rparr>,
      heap = [LineSection 1 ''s'' [(''k'', 1)] 2,
              LineValue 2 (Some ''s'') ''k'' (VNumber (Finite 2)),
              LineValue 1 None ''x'' (VNumber (Finite 1))]\<rparr> \<and>
   val (heap (IniMap_set ''s'' (VString ''k'') (VNumber (Finite 2))
     \<lparr>global = [(''x'', 2)], sections = [(''s'', 0)], lines = [0, 1, 2],
      formatting = \<lparr>lineBreak = Some LF, pretty = Some False\<rparr>,
      heap = [LineSection 1 ''s'' [(''k'', 1)] 2,
              LineValue 2 (Some ''s'') ''k'' (VNumber (Finite 1)),
              LineValue 1 None ''x'' (VNumber (Finite 1))]\<rparr>) ! 1) = VNumber (Finite 2)"
proof -
  let ?start = "\<lparr>global = [], sections = [(''s'', 0)], lines = [0, 1],
      formatting = \<lparr>lineBreak = Some LF, pretty = Some False\<rparr>,
      heap = [LineSection 1 ''s'' [(''k'', 1)] 2,
              LineValue 2 (Some ''s'') ''k'' (VNumber (Finite 1))]\<rparr>"
  let ?m = "\<lparr>global = [(''x'', 2)], sections = [(''s'', 0)], lines = [0, 1, 2],
      formatting = \<lparr>lineBreak = Some LF, pretty = Some False\<rparr>,
      heap = [LineSection 1 ''s'' [(''k'', 1)] 2,
              LineValue 2 (Some ''s'') ''k'' (VNumber (Finite 1)),
              LineValue 1 None ''x'' (VNumber (Finite 1))]\<rparr>"
  have p: "parse (JString ''x=1'') None ?start = Inr ?m" by code_simp
  have n: "line_numbers ?m = [1, 2, 1]" by code_simp
  have u: "VNumber (Finite 2) \<noteq> VUndefined" by simp
  have s: "map_of (sections ?m) ''s'' = Some 0" by simp
  have t: "is_section (heap ?m ! 0)" by simp
  have k: "map_of (map_sec (heap ?m ! 0)) ''k'' = Some 1" by simp
  have b: "1 < length (heap ?m)" by simp
  have i: "is_value (heap ?m ! 1)" by simp
  have e: "IniMap_set ''s'' (VString ''k'') (VNumber (Finite 2)) ?m =
     \<lparr>global = [(''x'', 2)], sections = [(''s'', 0)], lines = [0, 1, 2],
      formatting = \<lparr>lineBreak = Some LF, pretty = Some False\<rparr>,
      heap = [LineSection 1 ''s'' [(''k'', 1)] 2,
              LineValue 2 (Some ''s'') ''k'' (VNumber (Finite 2)),
              LineValue 1 None ''x'' (VNumber (Finite 1))]\<rparr>"
    by code_simp
  from C1_set_existing_section_key[OF u s t k b i]
  have "val (heap (IniMap_set ''s'' (VString ''k'') (VNumber (Finite 2)) ?m) ! 1) =
      VNumber (Finite 2)"
    by blast
  with p n e show ?thesis by blast
qed

theorem C1_set_existing_key_counterexample:
  "map_of (global (IniMap_set ''a'' (VNumber (Finite 1)) VUndefined (new_IniMap no_formatting)))
     ''a'' = Some 0 \<and>
   length (lines (IniMap_set ''a'' (VNumber (Finite 1)) VUndefined
     (new_IniMap no_formatting))) = 1 \<and>
   length (lines (IniMap_set ''a'' (VNumber (Finite 1)) VUndefined
     (IniMap_set ''a'' (VNumber (Finite 1)) VUndefined (new_IniMap no_formatting)))) = 2 \<and>
   length (lines (IniMap_set ''s'' (VString ''k'') (VNumber (Finite 1))
     (new_IniMap no_formatting))) = 2 \<and>
   length (lines (IniMap_set ''s'' (VString ''k'') VUndefined
     (IniMap_set ''s'' (VString ''k'') (VNumber (Finite 1)) (new_IniMap no_formatting)))) = 3"
  by code_simp


section \<open>Preservation of consistency\<close>

lemma shift1_simps [simp]:
  "is_section (shift1 d l) = is_section l"
  "is_value (shift1 d l) = is_value l"
  "is_comment (shift1 d l) = is_comment l"
  "num (shift1 d l) = num l + d"
  "is_section l \<Longrightarrow> end_sec (shift1 d l) = end_sec l + d"
  "is_section l \<Longrightarrow> sec (shift1 d l) = sec l"
  "is_section l \<Longrightarrow> map_sec (shift1 d l) = map_sec l"
  by (simp_all add: shift1_def)

lemma nth_update_fun:
  "(h[i := f (h ! i)]) ! r = (if r = i \<and> i < length h then f (h ! r) else h ! r)"
  by (cases "i < length h") (auto simp: nth_list_update list_update_beyond)

lemma set_val_other: "\<not> is_value l \<Longrightarrow> set_val v l = l"
  by (cases l) simp_all

lemma section_not_value: "is_section l \<Longrightarrow> \<not> is_value l"
  by (cases l) simp_all

lemma set_update_cases:
  "e \<in> set (AList.update k v al) \<Longrightarrow> e = (k, v) \<or> e \<in> set al"
  by (induction al) (auto split: if_splits)

lemma sound_sectionI:
  assumes "r \<in> set (lines m)" and "is_section (heap m ! r)" and "sec (heap m ! r) = s"
    and "s \<noteq> [] \<Longrightarrow> num (heap m ! r) \<le> end_sec (heap m ! r)"
    and "s \<noteq> [] \<Longrightarrow> end_sec (heap m ! r) \<le> int (length (lines m))"
    and "\<forall>kv\<in>set (map_sec (heap m ! r)). snd kv < length (heap m) \<and> is_value (heap m ! snd kv)"
  shows "sound_section m (s, r)"
  using assms by (simp add: sound_section_def list_all_iff)

lemma contiguous_heap_cong:
  assumes "contiguous m" and "\<forall>r\<in>set (lines m). num (h ! r) = num (heap m ! r)"
  shows "contiguous (m\<lparr>heap := h\<rparr>)"
proof (rule contiguousI)
  fix i assume "i < length (lines (m\<lparr>heap := h\<rparr>))"
  then have i: "i < length (lines m)" by simp
  with assms(2) have "num (h ! (lines m ! i)) = num (heap m ! (lines m ! i))" by simp
  with contiguous_nth[OF assms(1) i] show
    "num (heap (m\<lparr>heap := h\<rparr>) ! (lines (m\<lparr>heap := h\<rparr>) ! i)) = int i + 1" by simp
qed

text \<open>
  The general step: the store grows by one record, which enters the lines at index \<open>p\<close>
  with number \<open>p + 1\<close>; the old records keep their numbers, kinds, names and key maps.
\<close>

lemma consistent_insert:
  assumes c: "consistent m"
    and len: "length h2 = Suc (length (heap m))"
    and new: "num (h2 ! length (heap m)) = int p + 1"
    and p: "p \<le> length (lines m)"
    and old: "\<forall>r<length (heap m).
        num (h2 ! r) = num (heap m ! r) \<and> is_section (h2 ! r) = is_section (heap m ! r) \<and>
        is_value (h2 ! r) = is_value (heap m ! r) \<and>
        (is_section (heap m ! r) \<longrightarrow>
           sec (h2 ! r) = sec (heap m ! r) \<and> map_sec (h2 ! r) = map_sec (heap m ! r))"
    and rng: "\<forall>e\<in>set (sections m). fst e \<noteq> [] \<longrightarrow>
        num (h2 ! snd e) \<le> end_sec (h2 ! snd e) \<and>
        end_sec (h2 ! snd e) \<le>
          (if snd e \<in> set (drop p (lines m)) then int (length (lines m))
           else int (length (lines m)) + 1)"
  shows "consistent (insert_line p (length (heap m)) (m\<lparr>heap := h2\<rparr>))"
proof -
  let ?v = "length (heap m)"
  let ?m2 = "m\<lparr>heap := h2\<rparr>"
  let ?m' = "insert_line p ?v ?m2"
  note C = consistentD[OF c]
  have d2: "distinct (lines ?m2)" using C(1) by simp
  have b2: "\<forall>r\<in>set (lines ?m2). r < length (heap ?m2)" using C(2) len by auto
  have c2: "contiguous ?m2"
    using C(2) old by (intro contiguous_heap_cong[OF C(3)]) auto
  have v2: "?v < length (heap ?m2)" "?v \<notin> set (lines ?m2)" "num (heap ?m2 ! ?v) = int p + 1"
    using len new C(2) by auto
  have p2: "p \<le> length (lines ?m2)" using p by simp
  note I = insert_line_contiguous[OF c2 d2 b2 v2 p2]
  have nth: "heap ?m' ! r =
      (if r \<in> set (drop p (lines m)) then shift1 1 (h2 ! r) else h2 ! r)"
    if "r < length (heap m)" for r
    using insert_line_nth[OF d2 b2, of r p ?v] that len by simp
  have "sound_section ?m' e" if e: "e \<in> set (sections m)" for e
  proof -
    obtain s r where sr: "e = (s, r)" by (cases e)
    from C(4) e sr have S: "sound_section m (s, r)" by blast
    note D = sound_sectionD[OF S]
    from D(1) C(2) have r: "r < length (heap m)" by blast
    from old r D(2,3) have o: "is_section (h2 ! r)" "sec (h2 ! r) = s"
      "map_sec (h2 ! r) = map_sec (heap m ! r)" by auto
    from rng e sr have g: "s \<noteq> [] \<Longrightarrow> num (h2 ! r) \<le> end_sec (h2 ! r) \<and>
        end_sec (h2 ! r) \<le> (if r \<in> set (drop p (lines m)) then int (length (lines m))
           else int (length (lines m)) + 1)" by auto
    have "sound_section ?m' (s, r)"
    proof (rule sound_sectionI)
      from D(1) show "r \<in> set (lines ?m')"
        by (simp, metis Un_iff append_take_drop_id set_append)
      from nth[OF r] o show "is_section (heap ?m' ! r)" by simp
      from nth[OF r] o show "sec (heap ?m' ! r) = s" by simp
      show "num (heap ?m' ! r) \<le> end_sec (heap ?m' ! r)" if "s \<noteq> []"
        using nth[OF r] o g[OF that] by simp
      show "end_sec (heap ?m' ! r) \<le> int (length (lines ?m'))" if "s \<noteq> []"
        using nth[OF r] o g[OF that] p by (simp split: if_splits)
      show "\<forall>kv\<in>set (map_sec (heap ?m' ! r)).
          snd kv < length (heap ?m') \<and> is_value (heap ?m' ! snd kv)"
      proof
        fix kv assume "kv \<in> set (map_sec (heap ?m' ! r))"
        with nth[OF r] o have "kv \<in> set (map_sec (heap m ! r))" by (simp split: if_splits)
        with D(6) have k: "snd kv < length (heap m)" "is_value (heap m ! snd kv)" by auto
        with old have "is_value (h2 ! snd kv)" by simp
        with nth[OF k(1)] k(1) len
        show "snd kv < length (heap ?m') \<and> is_value (heap ?m' ! snd kv)" by simp
      qed
    qed
    with sr show ?thesis by simp
  qed
  with I show ?thesis by (intro consistentI) simp_all
qed

text \<open>Entering a key into the key map of a section.\<close>

lemma consistent_map_set:
  assumes c: "consistent m" and v: "v < length (heap m)" "is_value (heap m ! v)"
  shows "consistent (m\<lparr>heap := (heap m)[sr := map_set k v (heap m ! sr)]\<rparr>)"
proof -
  let ?h = "(heap m)[sr := map_set k v (heap m ! sr)]"
  let ?m' = "m\<lparr>heap := ?h\<rparr>"
  note C = consistentD[OF c]
  have f: "num (?h ! r) = num (heap m ! r)" "is_section (?h ! r) = is_section (heap m ! r)"
    "is_value (?h ! r) = is_value (heap m ! r)" for r
    by (simp_all add: nth_update_fun)
  have g: "sec (?h ! r) = sec (heap m ! r)" "end_sec (?h ! r) = end_sec (heap m ! r)"
    "set (map_sec (?h ! r)) \<subseteq> insert (k, v) (set (map_sec (heap m ! r)))"
    if "is_section (heap m ! r)" for r
  proof -
    from that show "sec (?h ! r) = sec (heap m ! r)" by (auto simp: nth_update_fun)
    from that show "end_sec (?h ! r) = end_sec (heap m ! r)" by (auto simp: nth_update_fun)
    from that show "set (map_sec (?h ! r)) \<subseteq> insert (k, v) (set (map_sec (heap m ! r)))"
      by (auto simp: nth_update_fun dest: set_update_cases split: if_splits)
  qed
  have "sound_section ?m' e" if e: "e \<in> set (sections m)" for e
  proof -
    obtain s r where sr: "e = (s, r)" by (cases e)
    from C(4) e sr have S: "sound_section m (s, r)" by blast
    note D = sound_sectionD[OF S]
    have "sound_section ?m' (s, r)"
    proof (rule sound_sectionI)
      from D(1) show "r \<in> set (lines ?m')" by simp
      from D(2) f show "is_section (heap ?m' ! r)" by simp
      from D(2,3) g show "sec (heap ?m' ! r) = s" by simp
      show "num (heap ?m' ! r) \<le> end_sec (heap ?m' ! r)" if "s \<noteq> []"
        using D(4)[OF that] D(2) f g by simp
      show "end_sec (heap ?m' ! r) \<le> int (length (lines ?m'))" if "s \<noteq> []"
        using D(5)[OF that] D(2) g by simp
      show "\<forall>kv\<in>set (map_sec (heap ?m' ! r)).
          snd kv < length (heap ?m') \<and> is_value (heap ?m' ! snd kv)"
      proof
        fix kv assume "kv \<in> set (map_sec (heap ?m' ! r))"
        with g(3)[OF D(2)] have "kv = (k, v) \<or> kv \<in> set (map_sec (heap m ! r))" by auto
        with D(6) v f show "snd kv < length (heap ?m') \<and> is_value (heap ?m' ! snd kv)"
          by auto
      qed
    qed
    with sr show ?thesis by simp
  qed
  moreover have "contiguous ?m'"
    using f by (intro contiguous_heap_cong[OF C(3)]) simp
  ultimately show ?thesis
    using C(1,2) by (intro consistentI) simp_all
qed

text \<open>Replacing the value of a value record.\<close>

lemma consistent_set_val:
  assumes c: "consistent m"
  shows "consistent (m\<lparr>heap := (heap m)[vr := set_val v (heap m ! vr)]\<rparr>)"
proof -
  let ?h = "(heap m)[vr := set_val v (heap m ! vr)]"
  let ?m' = "m\<lparr>heap := ?h\<rparr>"
  note C = consistentD[OF c]
  have f: "num (?h ! r) = num (heap m ! r)" "is_section (?h ! r) = is_section (heap m ! r)"
    "is_value (?h ! r) = is_value (heap m ! r)" for r
    by (simp_all add: nth_update_fun)
  have g: "?h ! r = heap m ! r" if "is_section (heap m ! r)" for r
    using section_not_value[OF that] by (auto simp: nth_update_fun set_val_other)
  have "sound_section ?m' e" if e: "e \<in> set (sections m)" for e
  proof -
    obtain s r where sr: "e = (s, r)" by (cases e)
    from C(4) e sr have S: "sound_section m (s, r)" by blast
    note D = sound_sectionD[OF S]
    have "sound_section ?m' (s, r)"
      using D g[OF D(2)] f by (intro sound_sectionI) auto
    with sr show ?thesis by simp
  qed
  moreover have "contiguous ?m'"
    using f by (intro contiguous_heap_cong[OF C(3)]) simp
  ultimately show ?thesis
    using C(1,2) by (intro consistentI) simp_all
qed

section \<open>\<open>set\<close> preserves consistency\<close>

lemma sound_section_fields [simp]:
  "sound_section (m\<lparr>global := g\<rparr>) = sound_section m"
  "sound_section (m\<lparr>formatting := f\<rparr>) = sound_section m"
  by (rule ext, simp add: sound_section_def)+

lemma consistent_global [simp]: "consistent (m\<lparr>global := g\<rparr>) = consistent m"
  by (simp add: consistent_def contiguous_def line_numbers_def del: upt_Suc)

lemma consistent_formatting [simp]: "consistent (m\<lparr>formatting := f\<rparr>) = consistent m"
  by (simp add: consistent_def contiguous_def line_numbers_def del: upt_Suc)

lemma consistent_num_pos:
  assumes "consistent m" and "r \<in> set (lines m)"
  shows "1 \<le> num (heap m ! r)" and "num (heap m ! r) \<le> int (length (lines m))"
proof -
  from assms(2) obtain i where i: "i < length (lines m)" and r: "lines m ! i = r"
    by (auto simp: in_set_conv_nth)
  from contiguous_nth[OF consistentD(3)[OF assms(1)] i] r
  have n: "num (heap m ! r) = int i + 1" by simp
  from n show "1 \<le> num (heap m ! r)" by simp
  from n i show "num (heap m ! r) \<le> int (length (lines m))" by simp
qed

lemma consistent_set_global:
  assumes c: "consistent m"
  shows "consistent (set_global k v m)"
proof -
  note C = consistentD[OF c]
  let ?p = "first_section_index m"
  let ?h2 = "heap m @ [LineValue (int ?p + 1) None k v]"
  have len: "length ?h2 = Suc (length (heap m))" by simp
  have new: "num (?h2 ! length (heap m)) = int ?p + 1" by simp
  have p: "?p \<le> length (lines m)" by (rule first_section_index_le)
  have old: "\<forall>r<length (heap m).
        num (?h2 ! r) = num (heap m ! r) \<and> is_section (?h2 ! r) = is_section (heap m ! r) \<and>
        is_value (?h2 ! r) = is_value (heap m ! r) \<and>
        (is_section (heap m ! r) \<longrightarrow>
           sec (?h2 ! r) = sec (heap m ! r) \<and> map_sec (?h2 ! r) = map_sec (heap m ! r))"
    by (simp add: nth_append)
  have rng: "\<forall>e\<in>set (sections m). fst e \<noteq> [] \<longrightarrow>
        num (?h2 ! snd e) \<le> end_sec (?h2 ! snd e) \<and>
        end_sec (?h2 ! snd e) \<le>
          (if snd e \<in> set (drop ?p (lines m)) then int (length (lines m))
           else int (length (lines m)) + 1)"
  proof (intro ballI impI)
    fix e assume a: "e \<in> set (sections m)" "fst e \<noteq> []"
    with C(4) have S: "sound_section m (fst e, snd e)" by simp
    note D = sound_sectionD[OF S]
    from D(1) C(2) have "snd e < length (heap m)" by blast
    with D(4)[OF a(2)] D(5)[OF a(2)]
    show "num (?h2 ! snd e) \<le> end_sec (?h2 ! snd e) \<and>
        end_sec (?h2 ! snd e) \<le>
          (if snd e \<in> set (drop ?p (lines m)) then int (length (lines m))
           else int (length (lines m)) + 1)"
      by (simp add: nth_append)
  qed
  from consistent_insert[OF c len new p old rng] set_global_eq[OF C(2), of k v]
  show ?thesis by simp
qed

lemma inserted_is_value:
  assumes "distinct (lines m)" and "\<forall>r\<in>set (lines m). r < length h"
    and "r < length h" and "is_value (h ! r)"
  shows "is_value (heap (insert_line p v (m\<lparr>heap := h\<rparr>)) ! r)"
  using insert_line_nth[of "m\<lparr>heap := h\<rparr>" r p v] assms by simp

lemma consistent_set_section_named:
  assumes c: "consistent m" and s: "map_of (sections m) s = Some sr"
    and k: "map_of (map_sec (heap m ! sr)) k = None" and n: "s \<noteq> []"
  shows "consistent (set_section s k v m)"
proof -
  note C = consistentD[OF c]
  note S = consistent_section[OF c s]
  note D = sound_sectionD[OF S(1)]
  let ?e = "end_sec (heap m ! sr)"
  let ?p = "nat ?e"
  from consistent_num_pos(1)[OF c D(1)] D(4)[OF n] have e: "?e = int ?p" by simp
  from D(5)[OF n] have p: "?p \<le> length (lines m)" by simp
  from D(1) have ne: "lines m \<noteq> []" by auto
  let ?h1 = "(heap m)[sr := add_end 1 (heap m ! sr)]"
  let ?h2 = "?h1 @ [LineValue (int ?p + 1) (Some s) k v]"
  let ?m3 = "insert_line ?p (length (heap m)) (m\<lparr>heap := ?h2\<rparr>)"
  have len: "length ?h2 = Suc (length (heap m))" by simp
  have new: "num (?h2 ! length (heap m)) = int ?p + 1" by (simp add: nth_append)
  have old: "\<forall>r<length (heap m).
        num (?h2 ! r) = num (heap m ! r) \<and> is_section (?h2 ! r) = is_section (heap m ! r) \<and>
        is_value (?h2 ! r) = is_value (heap m ! r) \<and>
        (is_section (heap m ! r) \<longrightarrow>
           sec (?h2 ! r) = sec (heap m ! r) \<and> map_sec (?h2 ! r) = map_sec (heap m ! r))"
    using S(2) by (auto simp: nth_append nth_list_update)
  have nd: "sr \<notin> set (drop ?p (lines m))"
    using contiguous_drop[OF C(3) C(1) D(1), of ?p] D(4)[OF n] e by simp
  have rng: "\<forall>e\<in>set (sections m). fst e \<noteq> [] \<longrightarrow>
        num (?h2 ! snd e) \<le> end_sec (?h2 ! snd e) \<and>
        end_sec (?h2 ! snd e) \<le>
          (if snd e \<in> set (drop ?p (lines m)) then int (length (lines m))
           else int (length (lines m)) + 1)"
  proof (intro ballI impI)
    fix e' assume a: "e' \<in> set (sections m)" "fst e' \<noteq> []"
    with C(4) have "sound_section m (fst e', snd e')" by simp
    note E = sound_sectionD[OF this]
    from E(1) C(2) have r: "snd e' < length (heap m)" by blast
    show "num (?h2 ! snd e') \<le> end_sec (?h2 ! snd e') \<and>
        end_sec (?h2 ! snd e') \<le>
          (if snd e' \<in> set (drop ?p (lines m)) then int (length (lines m))
           else int (length (lines m)) + 1)"
    proof (cases "snd e' = sr")
      case True
      with r E(2) E(4)[OF a(2)] E(5)[OF a(2)] nd show ?thesis
        by (simp add: nth_append)
    next
      case False
      with r E(4)[OF a(2)] E(5)[OF a(2)] show ?thesis
        by (simp add: nth_append)
    qed
  qed
  have c3: "consistent ?m3" by (rule consistent_insert[OF c len new p old rng])
  have v3: "length (heap m) < length (heap ?m3)" by simp
  have iv: "is_value (heap ?m3 ! length (heap m))"
    using C(1,2) by (intro inserted_is_value) (auto simp: nth_append)
  from consistent_map_set[OF c3 v3 iv, of sr k]
    set_section_new_key[OF s k S(2) D(2) D(3) n ne e p, of v]
  show ?thesis by (simp add: Let_def)
qed

lemma consistent_set_section_unnamed:
  assumes c: "consistent m" and s: "map_of (sections m) [] = Some sr"
    and k: "map_of (map_sec (heap m ! sr)) k = None"
  shows "consistent (set_section [] k v m)"
proof -
  note C = consistentD[OF c]
  note S = consistent_section[OF c s]
  note D = sound_sectionD[OF S(1)]
  let ?p = "first_section_index m"
  have p: "?p \<le> length (lines m)" by (rule first_section_index_le)
  let ?h1 = "(heap m)[sr := add_end 1 (heap m ! sr)]"
  let ?h2 = "?h1 @ [LineValue (int ?p + 1) (Some []) k v]"
  let ?m3 = "insert_line ?p (length (heap m)) (m\<lparr>heap := ?h2\<rparr>)"
  have len: "length ?h2 = Suc (length (heap m))" by simp
  have new: "num (?h2 ! length (heap m)) = int ?p + 1" by (simp add: nth_append)
  have old: "\<forall>r<length (heap m).
        num (?h2 ! r) = num (heap m ! r) \<and> is_section (?h2 ! r) = is_section (heap m ! r) \<and>
        is_value (?h2 ! r) = is_value (heap m ! r) \<and>
        (is_section (heap m ! r) \<longrightarrow>
           sec (?h2 ! r) = sec (heap m ! r) \<and> map_sec (?h2 ! r) = map_sec (heap m ! r))"
    using S(2) by (auto simp: nth_append nth_list_update)
  have rng: "\<forall>e\<in>set (sections m). fst e \<noteq> [] \<longrightarrow>
        num (?h2 ! snd e) \<le> end_sec (?h2 ! snd e) \<and>
        end_sec (?h2 ! snd e) \<le>
          (if snd e \<in> set (drop ?p (lines m)) then int (length (lines m))
           else int (length (lines m)) + 1)"
  proof (intro ballI impI)
    fix e' assume a: "e' \<in> set (sections m)" "fst e' \<noteq> []"
    with C(4) have "sound_section m (fst e', snd e')" by simp
    note E = sound_sectionD[OF this]
    from E(1) C(2) have r: "snd e' < length (heap m)" by blast
    from E(3) D(3) a(2) have "snd e' \<noteq> sr" by auto
    with r E(4)[OF a(2)] E(5)[OF a(2)]
    show "num (?h2 ! snd e') \<le> end_sec (?h2 ! snd e') \<and>
        end_sec (?h2 ! snd e') \<le>
          (if snd e' \<in> set (drop ?p (lines m)) then int (length (lines m))
           else int (length (lines m)) + 1)"
      by (simp add: nth_append)
  qed
  have c3: "consistent ?m3" by (rule consistent_insert[OF c len new p old rng])
  have v3: "length (heap m) < length (heap ?m3)" by simp
  have iv: "is_value (heap ?m3 ! length (heap m))"
    using C(1,2) by (intro inserted_is_value) (auto simp: nth_append)
  from consistent_map_set[OF c3 v3 iv, of sr k]
    set_section_new_key_unnamed[OF s k S(2) D(2) D(3) C(2), of v]
  show ?thesis by (simp add: Let_def)
qed

lemma consistent_set_section_existing:
  assumes c: "consistent m" and s: "map_of (sections m) s = Some sr"
  shows "consistent (set_section s k v m)"
proof (cases "map_of (map_sec (heap m ! sr)) k")
  case None
  show ?thesis
  proof (cases "s = []")
    case True
    with consistent_set_section_unnamed[OF c _ None] s show ?thesis by simp
  next
    case False
    from consistent_set_section_named[OF c s None False] show ?thesis .
  qed
next
  case (Some vr)
  from set_section_existing[OF s Some, of v] consistent_set_val[OF c, of vr v]
  show ?thesis by simp
qed

text \<open>The section record that \<open>#getOrCreateSection\<close> appends for a name not yet known.\<close>

lemma consistent_new_section:
  assumes c: "consistent m"
  shows "consistent
       (m\<lparr>heap := heap m @ [LineSection (int (length (lines m)) + 1) s []
                               (int (length (lines m)) + 1)],
          lines := lines m @ [length (heap m)],
          sections := AList.update s (length (heap m)) (sections m)\<rparr>)"
    (is "consistent ?m'")
proof (rule consistentI)
  note C = consistentD[OF c]
  from C(2) have nl: "length (heap m) \<notin> set (lines m)" by auto
  with C(1) show "distinct (lines ?m')" by simp
  from C(2) show "\<forall>r\<in>set (lines ?m'). r < length (heap ?m')" by auto
  show "contiguous ?m'"
  proof (rule contiguousI)
    fix i assume "i < length (lines ?m')"
    then consider "i < length (lines m)" | "i = length (lines m)" by fastforce
    then show "num (heap ?m' ! (lines ?m' ! i)) = int i + 1"
    proof cases
      case 1
      with C(2) have "lines m ! i < length (heap m)" by simp
      with 1 contiguous_nth[OF C(3) 1] show ?thesis by (simp add: nth_append)
    next
      case 2
      then show ?thesis by (simp add: nth_append)
    qed
  qed
  show "\<forall>e\<in>set (sections ?m'). sound_section ?m' e"
  proof
    fix e assume "e \<in> set (sections ?m')"
    then have "e = (s, length (heap m)) \<or> e \<in> set (sections m)"
      by (auto dest: set_update_cases)
    then show "sound_section ?m' e"
    proof
      assume "e = (s, length (heap m))"
      then show ?thesis by (simp add: sound_section_def)
    next
      assume a: "e \<in> set (sections m)"
      with C(4) have "sound_section m (fst e, snd e)" by simp
      note D = sound_sectionD[OF this]
      from D(1) C(2) have r: "snd e < length (heap m)" by blast
      have "sound_section ?m' (fst e, snd e)"
      proof (rule sound_sectionI)
        from D(1) show "snd e \<in> set (lines ?m')" by simp
        from D(2) r show "is_section (heap ?m' ! snd e)" by (simp add: nth_append)
        from D(3) r show "sec (heap ?m' ! snd e) = fst e" by (simp add: nth_append)
        show "num (heap ?m' ! snd e) \<le> end_sec (heap ?m' ! snd e)" if "fst e \<noteq> []"
          using D(4)[OF that] r by (simp add: nth_append)
        show "end_sec (heap ?m' ! snd e) \<le> int (length (lines ?m'))" if "fst e \<noteq> []"
          using D(5)[OF that] r by (simp add: nth_append)
        show "\<forall>kv\<in>set (map_sec (heap ?m' ! snd e)).
            snd kv < length (heap ?m') \<and> is_value (heap ?m' ! snd kv)"
        proof
          fix kv assume "kv \<in> set (map_sec (heap ?m' ! snd e))"
          with r have "kv \<in> set (map_sec (heap m ! snd e))" by (simp add: nth_append)
          with D(6) have "snd kv < length (heap m)" "is_value (heap m ! snd kv)" by auto
          then show "snd kv < length (heap ?m') \<and> is_value (heap ?m' ! snd kv)"
            by (simp add: nth_append)
        qed
      qed
      then show ?thesis by simp
    qed
  qed
qed

lemma consistent_set_section:
  assumes c: "consistent m"
  shows "consistent (set_section s k v m)"
proof (cases "map_of (sections m) s")
  case None
  let ?m' = "m\<lparr>heap := heap m @ [LineSection (int (length (lines m)) + 1) s []
                               (int (length (lines m)) + 1)],
          lines := lines m @ [length (heap m)],
          sections := AList.update s (length (heap m)) (sections m)\<rparr>"
  have "map_of (sections ?m') s = Some (length (heap m))" by (simp add: update_conv')
  from consistent_set_section_existing[OF consistent_new_section[OF c] this]
    set_section_new_section[OF None, of k v]
  show ?thesis by simp
next
  case (Some sr)
  from consistent_set_section_existing[OF c Some] show ?thesis .
qed

lemma consistent_IniMap_set:
  assumes "consistent m"
  shows "consistent (IniMap_set a b v m)"
  using consistent_set_section[OF assms] consistent_set_global[OF assms]
  by (simp add: IniMap_set_def split: IniValue.splits)

section \<open>\<open>parse\<close> preserves consistency\<close>

lemma consistent_cong:
  assumes "lines m' = lines m" and "heap m' = heap m" and "sections m' = sections m"
  shows "consistent m' = consistent m"
proof -
  have "sound_section m' = sound_section m"
    by (rule ext) (simp add: sound_section_def assms)
  then show ?thesis
    by (simp add: consistent_def contiguous_def line_numbers_def assms del: upt_Suc)
qed

text \<open>A record appended to the store and to the lines.\<close>

lemma consistent_append:
  assumes c: "consistent m"
    and len: "length h2 = Suc (length (heap m))"
    and new: "num (h2 ! length (heap m)) = int (length (lines m)) + 1"
    and old: "\<forall>r<length (heap m).
        num (h2 ! r) = num (heap m ! r) \<and> is_section (h2 ! r) = is_section (heap m ! r) \<and>
        is_value (h2 ! r) = is_value (heap m ! r) \<and>
        (is_section (heap m ! r) \<longrightarrow>
           sec (h2 ! r) = sec (heap m ! r) \<and> map_sec (h2 ! r) = map_sec (heap m ! r))"
    and rng: "\<forall>e\<in>set (sections m). fst e \<noteq> [] \<longrightarrow>
        num (h2 ! snd e) \<le> end_sec (h2 ! snd e) \<and>
        end_sec (h2 ! snd e) \<le> int (length (lines m)) + 1"
  shows "consistent (m\<lparr>heap := h2, lines := lines m @ [length (heap m)]\<rparr>)"
proof -
  have i: "insert_line (length (lines m)) (length (heap m)) (m\<lparr>heap := h2\<rparr>) =
      m\<lparr>heap := h2, lines := lines m @ [length (heap m)]\<rparr>"
    by (simp add: insert_line_def)
  from rng have rng': "\<forall>e\<in>set (sections m). fst e \<noteq> [] \<longrightarrow>
        num (h2 ! snd e) \<le> end_sec (h2 ! snd e) \<and>
        end_sec (h2 ! snd e) \<le>
          (if snd e \<in> set (drop (length (lines m)) (lines m)) then int (length (lines m))
           else int (length (lines m)) + 1)"
    by simp
  from consistent_insert[OF c len new le_refl old rng'] i show ?thesis by simp
qed

text \<open>Moving the end of a section record.\<close>

lemma consistent_set_end:
  assumes c: "consistent m"
    and e: "num (heap m ! sr) \<le> e" "e \<le> int (length (lines m))"
  shows "consistent (m\<lparr>heap := (heap m)[sr := set_end e (heap m ! sr)]\<rparr>)"
proof -
  let ?h = "(heap m)[sr := set_end e (heap m ! sr)]"
  let ?m' = "m\<lparr>heap := ?h\<rparr>"
  note C = consistentD[OF c]
  have f: "num (?h ! r) = num (heap m ! r)" "is_section (?h ! r) = is_section (heap m ! r)"
    "is_value (?h ! r) = is_value (heap m ! r)" for r
    by (simp_all add: nth_update_fun)
  have g: "sec (?h ! r) = sec (heap m ! r)" "map_sec (?h ! r) = map_sec (heap m ! r)"
    "end_sec (?h ! r) = (if r = sr \<and> sr < length (heap m) then e else end_sec (heap m ! r))"
    if "is_section (heap m ! r)" for r
  proof -
    from that show "sec (?h ! r) = sec (heap m ! r)" by (auto simp: nth_update_fun)
    from that show "map_sec (?h ! r) = map_sec (heap m ! r)" by (auto simp: nth_update_fun)
    from that show "end_sec (?h ! r) =
        (if r = sr \<and> sr < length (heap m) then e else end_sec (heap m ! r))"
      by (auto simp: nth_update_fun)
  qed
  have "sound_section ?m' x" if x: "x \<in> set (sections m)" for x
  proof -
    obtain s r where sr: "x = (s, r)" by (cases x)
    from C(4) x sr have S: "sound_section m (s, r)" by blast
    note D = sound_sectionD[OF S]
    have "sound_section ?m' (s, r)"
    proof (rule sound_sectionI)
      from D(1) show "r \<in> set (lines ?m')" by simp
      from D(2) f show "is_section (heap ?m' ! r)" by simp
      from D(2,3) g show "sec (heap ?m' ! r) = s" by simp
      show "num (heap ?m' ! r) \<le> end_sec (heap ?m' ! r)" if "s \<noteq> []"
        using D(4)[OF that] g(3)[OF D(2)] f(1)[of r] e(1) by (simp split: if_splits)
      show "end_sec (heap ?m' ! r) \<le> int (length (lines ?m'))" if "s \<noteq> []"
        using D(5)[OF that] g(3)[OF D(2)] e(2) by (simp split: if_splits)
      show "\<forall>kv\<in>set (map_sec (heap ?m' ! r)).
          snd kv < length (heap ?m') \<and> is_value (heap ?m' ! snd kv)"
        using D(6) g(2)[OF D(2)] f(3) by simp
    qed
    with sr show ?thesis by simp
  qed
  moreover have "contiguous ?m'"
    using f by (intro contiguous_heap_cong[OF C(3)]) simp
  ultimately show ?thesis
    using C(1,2) by (intro consistentI) simp_all
qed

text \<open>
  One round of the loop of \<open>parse\<close>, when \<open>lineNumber\<close> is the number of the next line of
  the document and the cursor points to a section record among the lines.
\<close>

lemma parse_line_consistent:
  assumes c: "consistent m" and n: "n = int (length (lines m)) + 1"
    and cur: "\<forall>c. cur = Some c \<longrightarrow> c \<in> set (lines m) \<and> is_section (heap m ! c)"
    and r: "parse_line rv l n (cur, m) = Inr (cur', m')"
  shows "consistent m'"
    and "\<forall>c. cur' = Some c \<longrightarrow> c \<in> set (lines m') \<and> is_section (heap m' ! c)"
proof -
  note C = consistentD[OF c]
  let ?r = "length (heap m)"
  have old: "\<forall>r<length (heap m).
        num ((heap m @ [x]) ! r) = num (heap m ! r) \<and>
        is_section ((heap m @ [x]) ! r) = is_section (heap m ! r) \<and>
        is_value ((heap m @ [x]) ! r) = is_value (heap m ! r) \<and>
        (is_section (heap m ! r) \<longrightarrow>
           sec ((heap m @ [x]) ! r) = sec (heap m ! r) \<and>
           map_sec ((heap m @ [x]) ! r) = map_sec (heap m ! r))" for x
    by (simp add: nth_append)
  have rng: "\<forall>e\<in>set (sections m). fst e \<noteq> [] \<longrightarrow>
        num ((heap m @ [x]) ! snd e) \<le> end_sec ((heap m @ [x]) ! snd e) \<and>
        end_sec ((heap m @ [x]) ! snd e) \<le> int (length (lines m)) + 1" for x
  proof (intro ballI impI)
    fix e assume a: "e \<in> set (sections m)" "fst e \<noteq> []"
    with C(4) have S: "sound_section m (fst e, snd e)" by simp
    note D = sound_sectionD[OF S]
    from D(1) C(2) have "snd e < length (heap m)" by blast
    with D(4)[OF a(2)] D(5)[OF a(2)]
    show "num ((heap m @ [x]) ! snd e) \<le> end_sec ((heap m @ [x]) ! snd e) \<and>
        end_sec ((heap m @ [x]) ! snd e) \<le> int (length (lines m)) + 1"
      by (simp add: nth_append)
  qed
  have app: "consistent (m\<lparr>heap := heap m @ [x], lines := lines m @ [?r]\<rparr>)"
    if "num x = n" for x
    using that n by (intro consistent_append[OF c _ _ old rng]) simp_all
  have keep: "\<forall>c. cur = Some c \<longrightarrow> c \<in> set (lines m @ [?r]) \<and> c < length (heap m)"
    using cur C(2) by auto
  have "consistent m' \<and> (\<forall>c. cur' = Some c \<longrightarrow> c \<in> set (lines m') \<and> is_section (heap m' ! c))"
  proof (cases "isComment (trim l)")
    case True
    from r parse_line_comment[OF True, of rv n "(cur, m)"]
    have e: "cur' = cur" "m' = m\<lparr>heap := heap m @ [LineComment n (trim l)],
        lines := lines m @ [?r]\<rparr>" by simp_all
    from app[of "LineComment n (trim l)"] e cur keep show ?thesis
      by (auto simp: nth_append)
  next
    case nc: False
    show ?thesis
    proof (cases "startsWith (trim l) ''[''")
      case True
      let ?s = "section_name (trim l)"
      from r parse_line_section[OF nc True, of rv n cur m]
      have e: "cur' = Some ?r"
        "m' = m\<lparr>heap := heap m @ [LineSection n ?s [] n], lines := lines m @ [?r],
               sections := AList.update ?s ?r (sections m)\<rparr>"
        by (simp_all split: if_splits)
      from consistent_new_section[OF c, of ?s] e n show ?thesis by simp
    next
      case ns: False
      show ?thesis
      proof (cases "CHR ''='' \<in> set (trim l)")
        case False
        with r parse_line_no_assignment[OF nc ns False, of rv n cur m] show ?thesis by simp
      next
        case eq: True
        show ?thesis
        proof (cases "hd (trim l) = CHR ''=''")
          case True
          with r parse_line_empty_key[OF nc ns eq True, of rv n cur m] show ?thesis by simp
        next
          case False
          note kv = parse_line_key_value[OF nc ns eq False, of rv n cur m]
          show ?thesis
          proof (cases cur)
            case None
            let ?x = "LineValue n None (trim (left_hand (trim l)))
                (rv (trim (left_hand (trim l))) (trim (right_hand (trim l))) None)"
            from r kv None
            have e: "cur' = None" "lines m' = lines m @ [?r]" "heap m' = heap m @ [?x]"
              "sections m' = sections m"
              by (auto simp: Let_def split: if_splits)
            let ?X = "m\<lparr>heap := heap m @ [?x], lines := lines m @ [?r]\<rparr>"
            have "consistent m' = consistent ?X"
              by (rule consistent_cong) (simp_all add: e)
            with app[of ?x] e show ?thesis by simp
          next
            case (Some c)
            from cur Some have cl: "c \<in> set (lines m)" and cs: "is_section (heap m ! c)"
              by simp_all
            from cl C(2) have cb: "c < length (heap m)" by blast
            let ?k = "trim (left_hand (trim l))"
            let ?x = "LineValue n (Some (sec (heap m ! c))) ?k
                (rv ?k (trim (right_hand (trim l))) (Some (sec (heap m ! c))))"
            let ?h1 = "heap m @ [?x]"
            let ?h2 = "?h1[c := map_set ?k ?r (?h1 ! c)]"
            let ?h3 = "?h2[c := set_end n (?h2 ! c)]"
            from r kv Some
            have e: "cur' = Some c" "lines m' = lines m @ [?r]" "heap m' = ?h3"
              "sections m' = sections m"
              by (auto simp: Let_def split: if_splits)
            let ?X1 = "m\<lparr>heap := ?h1, lines := lines m @ [?r]\<rparr>"
            let ?X2 = "?X1\<lparr>heap := (heap ?X1)[c := map_set ?k ?r (heap ?X1 ! c)]\<rparr>"
            let ?X3 = "?X2\<lparr>heap := (heap ?X2)[c := set_end n (heap ?X2 ! c)]\<rparr>"
            have c1: "consistent ?X1" by (rule app) simp
            have c2: "consistent ?X2"
              by (rule consistent_map_set[OF c1]) simp_all
            have "num (heap ?X2 ! c) = num (heap m ! c)"
              using cb by (simp add: nth_append)
            with consistent_num_pos(2)[OF c cl] n
            have b: "num (heap ?X2 ! c) \<le> n" "n \<le> int (length (lines ?X2))" by simp_all
            have c3: "consistent ?X3" by (rule consistent_set_end[OF c2 b])
            have "consistent m' = consistent ?X3"
              by (rule consistent_cong) (simp_all add: e)
            with c3 have "consistent m'" by simp
            moreover from cs cb have "is_section (?h3 ! c)" by (simp add: nth_append)
            ultimately show ?thesis using e cl by simp
          qed
        qed
      qed
    qed
  qed
  then show "consistent m'"
    and "\<forall>c. cur' = Some c \<longrightarrow> c \<in> set (lines m') \<and> is_section (heap m' ! c)"
    by simp_all
qed

lemma parse_lines_consistent:
  assumes "consistent m" and "n = int (length (lines m)) + 1"
    and "\<forall>c. cur = Some c \<longrightarrow> c \<in> set (lines m) \<and> is_section (heap m ! c)"
    and "parse_lines rv ls n (cur, m) = Inr st'"
  shows "consistent (snd st')"
  using assms
proof (induction ls arbitrary: n cur m)
  case Nil
  then show ?case by auto
next
  case (Cons l ls)
  from Cons.prems(4) obtain cur1 m1 where 1: "parse_line rv l n (cur, m) = Inr (cur1, m1)"
    and 2: "parse_lines rv ls (n + 1) (cur1, m1) = Inr st'"
    by (auto split: sum.splits)
  note P = parse_line_consistent[OF Cons.prems(1,2,3) 1]
  from parse_line_lines[OF 1] Cons.prems(2)
  have "n + 1 = int (length (lines m1)) + 1" by simp
  from Cons.IH[OF P(1) this P(2) 2] show ?case .
qed

lemma parse_consistent:
  assumes "consistent m" and "lines m = []" and "parse (JString s) rv m = Inr m'"
  shows "consistent m'"
proof -
  obtain ls f' where t: "readTextLines s [] (formatting m) = (ls, f')"
    by (cases "readTextLines s [] (formatting m)")
  let ?rv = "case rv of None \<Rightarrow> default_reviver | Some f \<Rightarrow> f"
  from assms(3) t obtain st where
    p: "parse_lines ?rv ls 1 (None, m\<lparr>formatting := f'\<rparr>) = Inr st" and m': "m' = snd st"
    by (auto simp: parse_def Let_def split: sum.splits)
  from assms(1) have 1: "consistent (m\<lparr>formatting := f'\<rparr>)" by simp
  from assms(2) have 2: "1 = int (length (lines (m\<lparr>formatting := f'\<rparr>))) + 1" by simp
  have 3: "\<forall>c. (None :: ref option) = Some c \<longrightarrow>
      c \<in> set (lines (m\<lparr>formatting := f'\<rparr>)) \<and> is_section (heap (m\<lparr>formatting := f'\<rparr>) ! c)"
    by simp
  from parse_lines_consistent[OF 1 2 3 p] m' show ?thesis by simp
qed

section \<open>Sequences of operations\<close>

lemma consistent_new: "consistent (new_IniMap f)"
  by (simp add: new_IniMap_def consistent_def contiguous_def line_numbers_def)

lemma run_sets_consistent:
  assumes "list_all is_Set ops" and "consistent m" and "run ops m = Inr m'"
  shows "consistent m'"
  using assms
proof (induction ops arbitrary: m)
  case Nil
  then show ?case by simp
next
  case (Cons x xs)
  from Cons.prems(1) obtain a b v where x: "x = Set a b v" by (cases x) simp_all
  from Cons.prems(3) x have "run xs (IniMap_set a b v m) = Inr m'" by simp
  from Cons.IH[OF _ consistent_IniMap_set[OF Cons.prems(2)] this] Cons.prems(1)
  show ?case by simp
qed

lemma run_consistent:
  assumes "list_all is_Set (tl ops)" and "run ops (new_IniMap f) = Inr m"
  shows "consistent m"
proof (cases ops)
  case Nil
  with assms(2) consistent_new[of f] show ?thesis by simp
next
  case (Cons x xs)
  with assms(1) have xs: "list_all is_Set xs" by simp
  show ?thesis
  proof (cases x)
    case (Parse s rv)
    with assms(2) Cons obtain m1 where
      1: "parse (JString s) rv (new_IniMap f) = Inr m1" and 2: "run xs m1 = Inr m"
      by (auto split: sum.splits)
    have "lines (new_IniMap f) = []" by (simp add: new_IniMap_def)
    from parse_consistent[OF consistent_new this 1] have "consistent m1" .
    from run_sets_consistent[OF xs this 2] show ?thesis .
  next
    case (Set a b v)
    with assms(2) Cons have "run xs (IniMap_set a b v (new_IniMap f)) = Inr m" by simp
    from run_sets_consistent[OF xs consistent_IniMap_set[OF consistent_new] this]
    show ?thesis .
  qed
qed

lemma tl_take_sets: "list_all is_Set (tl ops) \<Longrightarrow> list_all is_Set (tl (take n ops))"
  by (cases ops; cases n) (auto simp: list_all_iff dest: in_set_takeD)

text \<open>
  C3 as amended: starting from the empty model, after each operation of a sequence of
  successful operations in which only the first may be a \<open>parse\<close> and all others are
  calls of \<open>set\<close>, the line numbers of the stored records are exactly \<open>1..length\<close>, each
  equal to the position of its record among the lines. (A \<open>parse\<close> on a model that already
  has lines numbers its records from 1 again.)
\<close>

theorem C3_line_numbers:
  assumes "list_all is_Set (tl ops)" and "run (take n ops) (new_IniMap f) = Inr m"
  shows "line_numbers m = map int [1..<Suc (length (lines m))] \<and>
         (\<forall>i<length (lines m). num (heap m ! (lines m ! i)) = int i + 1)"
proof -
  from run_consistent[OF tl_take_sets[OF assms(1)] assms(2)] have "consistent m" .
  then have c: "contiguous m" by (rule consistentD(3))
  then have "line_numbers m = map int [1..<Suc (length (lines m))]"
    by (simp only: contiguous_def)
  with contiguous_nth[OF c] show ?thesis by blast
qed

theorem C3_line_numbers_witness:
  "run [Parse (''[s]'' @ [CHR 0x0A] @ ''a=1'') None,
        Set ''s'' (VString ''b'') (VNumber (Finite 2)),
        Set ''g'' (VNumber (Finite 1)) VUndefined] (new_IniMap no_formatting) =
     Inr \<lparr>global = [(''g'', 3)], sections = [(''s'', 0)], lines = [3, 0, 1, 2],
          formatting = \<lparr>lineBreak = Some LF, pretty = Some False\<rparr>,
          heap = [LineSection 2 ''s'' [(''a'', 1), (''b'', 2)] 4,
                  LineValue 3 (Some ''s'') ''a'' (VNumber (Finite 1)),
                  LineValue 4 (Some ''s'') ''b'' (VNumber (Finite 2)),
                  LineValue 1 None ''g'' (VNumber (Finite 1))]\<rparr> \<and>
   line_numbers \<lparr>global = [(''g'', 3)], sections = [(''s'', 0)], lines = [3, 0, 1, 2],
          formatting = \<lparr>lineBreak = Some LF, pretty = Some False\<rparr>,
          heap = [LineSection 2 ''s'' [(''a'', 1), (''b'', 2)] 4,
                  LineValue 3 (Some ''s'') ''a'' (VNumber (Finite 1)),
                  LineValue 4 (Some ''s'') ''b'' (VNumber (Finite 2)),
                  LineValue 1 None ''g'' (VNumber (Finite 1))]\<rparr> = [1, 2, 3, 4]"
proof -
  let ?ops = "[Parse (''[s]'' @ [CHR 0x0A] @ ''a=1'') None,
        Set ''s'' (VString ''b'') (VNumber (Finite 2)),
        Set ''g'' (VNumber (Finite 1)) VUndefined]"
  let ?m1 = "\<lparr>global = [], sections = [(''s'', 0)], lines = [0, 1],
          formatting = \<lparr>lineBreak = Some LF, pretty = Some False\<rparr>,
          heap = [LineSection 1 ''s'' [(''a'', 1)] 2,
                  LineValue 2 (Some ''s'') ''a'' (VNumber (Finite 1))]\<rparr>"
  let ?m2 = "\<lparr>global = [], sections = [(''s'', 0)], lines = [0, 1, 2],
          formatting = \<lparr>lineBreak = Some LF, pretty = Some False\<rparr>,
          heap = [LineSection 1 ''s'' [(''a'', 1), (''b'', 2)] 3,
                  LineValue 2 (Some ''s'') ''a'' (VNumber (Finite 1)),
                  LineValue 3 (Some ''s'') ''b'' (VNumber (Finite 2))]\<rparr>"
  let ?m3 = "\<lparr>global = [(''g'', 3)], sections = [(''s'', 0)], lines = [3, 0, 1, 2],
          formatting = \<lparr>lineBreak = Some LF, pretty = Some False\<rparr>,
          heap = [LineSection 2 ''s'' [(''a'', 1), (''b'', 2)] 4,
                  LineValue 3 (Some ''s'') ''a'' (VNumber (Finite 1)),
                  LineValue 4 (Some ''s'') ''b'' (VNumber (Finite 2)),
                  LineValue 1 None ''g'' (VNumber (Finite 1))]\<rparr>"
  have p: "parse (JString (''[s]'' @ [CHR 0x0A] @ ''a=1'')) None (new_IniMap no_formatting) =
      Inr ?m1"
    by code_simp
  have s1: "IniMap_set ''s'' (VString ''b'') (VNumber (Finite 2)) ?m1 = ?m2" by code_simp
  have s2: "IniMap_set ''g'' (VNumber (Finite 1)) VUndefined ?m2 = ?m3" by code_simp
  have r: "run ?ops (new_IniMap no_formatting) = Inr ?m3"
    by (simp only: run.simps apply_operation.simps p s1 s2 sum.case)
  have t: "list_all is_Set (tl ?ops)" by simp
  have k: "take 3 ?ops = ?ops" by simp
  from C3_line_numbers[where ops = ?ops and n = 3 and f = no_formatting and m = ?m3] t r k
  have "line_numbers ?m3 = map int [1..<Suc (length (lines ?m3))]" by simp
  moreover have "map int [1..<Suc (length (lines ?m3))] = [1, 2, 3, 4]" by code_simp
  ultimately have "line_numbers ?m3 = [1, 2, 3, 4]" by simp
  with r show ?thesis by blast
qed

theorem C3_line_numbers_counterexample:
  "run [Parse ''a=1'' None, Parse ''b=2'' None] (new_IniMap no_formatting) =
     Inr \<lparr>global = [(''a'', 0), (''b'', 1)], sections = [], lines = [0, 1],
          formatting = \<lparr>lineBreak = None, pretty = Some False\<rparr>,
          heap = [LineValue 1 None ''a'' (VNumber (Finite 1)),
                  LineValue 1 None ''b'' (VNumber (Finite 2))]\<rparr> \<and>
   line_numbers \<lparr>global = [(''a'', 0), (''b'', 1)], sections = [], lines = [0, 1],
          formatting = \<lparr>lineBreak = None, pretty = Some False\<rparr>,
          heap = [LineValue 1 None ''a'' (VNumber (Finite 1)),
                  LineValue 1 None ''b'' (VNumber (Finite 2))]\<rparr> = [1, 1] \<and>
   run [Set ''g'' (VNumber (Finite 1)) VUndefined, Parse ''a=1'' None]
       (new_IniMap no_formatting) =
     Inr \<lparr>global = [(''g'', 0), (''a'', 1)], sections = [], lines = [0, 1],
          formatting = \<lparr>lineBreak = None, pretty = Some False\<rparr>,
          heap = [LineValue 1 None ''g'' (VNumber (Finite 1)),
                  LineValue 1 None ''a'' (VNumber (Finite 1))]\<rparr> \<and>
   line_numbers \<lparr>global = [(''g'', 0), (''a'', 1)], sections = [], lines = [0, 1],
          formatting = \<lparr>lineBreak = None, pretty = Some False\<rparr>,
          heap = [LineValue 1 None ''g'' (VNumber (Finite 1)),
                  LineValue 1 None ''a'' (VNumber (Finite 1))]\<rparr> = [1, 1]"
proof -
  let ?a = "\<lparr>global = [(''a'', 0)], sections = [], lines = [0],
          formatting = \<lparr>lineBreak = None, pretty = Some False\<rparr>,
          heap = [LineValue 1 None ''a'' (VNumber (Finite 1))]\<rparr>"
  let ?ab = "\<lparr>global = [(''a'', 0), (''b'', 1)], sections = [], lines = [0, 1],
          formatting = \<lparr>lineBreak = None, pretty = Some False\<rparr>,
          heap = [LineValue 1 None ''a'' (VNumber (Finite 1)),
                  LineValue 1 None ''b'' (VNumber (Finite 2))]\<rparr>"
  let ?g = "\<lparr>global = [(''g'', 0)], sections = [], lines = [0],
          formatting = \<lparr>lineBreak = None, pretty = None\<rparr>,
          heap = [LineValue 1 None ''g'' (VNumber (Finite 1))]\<rparr>"
  let ?ga = "\<lparr>global = [(''g'', 0), (''a'', 1)], sections = [], lines = [0, 1],
          formatting = \<lparr>lineBreak = None, pretty = Some False\<rparr>,
          heap = [LineValue 1 None ''g'' (VNumber (Finite 1)),
                  LineValue 1 None ''a'' (VNumber (Finite 1))]\<rparr>"
  have 1: "parse (JString ''a=1'') None (new_IniMap no_formatting) = Inr ?a" by code_simp
  have 2: "parse (JString ''b=2'') None ?a = Inr ?ab" by code_simp
  have 3: "IniMap_set ''g'' (VNumber (Finite 1)) VUndefined (new_IniMap no_formatting) = ?g"
    by code_simp
  have 4: "parse (JString ''a=1'') None ?g = Inr ?ga" by code_simp
  have 5: "line_numbers ?ab = [1, 1]" by code_simp
  have 6: "line_numbers ?ga = [1, 1]" by code_simp
  have 7: "run [Parse ''a=1'' None, Parse ''b=2'' None] (new_IniMap no_formatting) = Inr ?ab"
    by (simp only: run.simps apply_operation.simps 1 2 sum.case)
  have 8: "run [Set ''g'' (VNumber (Finite 1)) VUndefined, Parse ''a=1'' None]
       (new_IniMap no_formatting) = Inr ?ga"
    by (simp only: run.simps apply_operation.simps 3 4 sum.case)
  from 5 6 7 8 show ?thesis by blast
qed

section \<open>The effect of \<open>set\<close> on the lines\<close>

lemma numberedD:
  assumes "numbered m"
  shows "distinct (lines m)" and "\<forall>r\<in>set (lines m). r < length (heap m)"
    and "contiguous m"
  using assms by (simp_all add: numbered_def list_all_iff)

lemma consistent_numbered: "consistent m \<Longrightarrow> numbered m"
  by (simp add: consistent_def numbered_def)

lemma contiguous_num_pos:
  assumes "contiguous m" and "r \<in> set (lines m)"
  shows "1 \<le> num (heap m ! r)"
proof -
  from assms(2) obtain i where i: "i < length (lines m)" and r: "lines m ! i = r"
    by (auto simp: in_set_conv_nth)
  from contiguous_nth[OF assms(1) i] r show ?thesis by simp
qed

lemma num_inj:
  assumes "contiguous m" and "r \<in> set (lines m)" and "r' \<in> set (lines m)"
    and "num (heap m ! r) = num (heap m ! r')"
  shows "r = r'"
proof -
  from assms(2) obtain i where i: "i < length (lines m)" and r: "lines m ! i = r"
    by (auto simp: in_set_conv_nth)
  from assms(3) obtain j where j: "j < length (lines m)" and r': "lines m ! j = r'"
    by (auto simp: in_set_conv_nth)
  note c = assms(1)
  from contiguous_nth[OF c i] contiguous_nth[OF c j] r r' assms(4) have "i = j" by simp
  with r r' show ?thesis by simp
qed

lemma ranges_orderedD:
  assumes "ranges_ordered m" and "r \<in> set (lines m)" and "is_section (heap m ! r)"
  shows "num (heap m ! r) \<le> end_sec (heap m ! r)"
    and "\<And>r'. r' \<in> set (lines m) \<Longrightarrow> is_section (heap m ! r') \<Longrightarrow>
           num (heap m ! r) < num (heap m ! r') \<Longrightarrow> end_sec (heap m ! r) < num (heap m ! r')"
    and "end_sec (heap m ! r) \<le> int (length (lines m))"
  using assms by (auto simp: ranges_ordered_def list_all_iff)

lemma unbroken_atD:
  assumes "unbroken_at p m" and "r \<in> set (lines m)" and "is_section (heap m ! r)"
  shows "(int p + 1 \<le> num (heap m ! r)) = (int p + 1 \<le> end_sec (heap m ! r))"
  using assms by (simp add: unbroken_at_def list_all_iff)

lemma inserted_atI:
  assumes "p \<le> length (lines m)"
    and "lines m' = take p (lines m) @ length (heap m) # drop p (lines m)"
    and "length (heap m') = Suc (length (heap m))"
    and "num (heap m' ! length (heap m)) = int p + 1"
    and "\<And>r. r \<in> set (lines m) \<Longrightarrow> num (heap m' ! r) =
        (if int p + 1 \<le> num (heap m ! r) then num (heap m ! r) + 1 else num (heap m ! r))"
    and "\<And>r. r \<in> set (lines m) \<Longrightarrow> is_section (heap m ! r) \<Longrightarrow> end_sec (heap m' ! r) =
        (if owner = Some r \<or> int p + 1 \<le> end_sec (heap m ! r)
         then end_sec (heap m ! r) + 1 else end_sec (heap m ! r))"
  shows "inserted_at p owner m m'"
  using assms by (simp add: inserted_at_def list_all_iff)

lemma insert_line_old:
  assumes c: "numbered m" and len: "length (heap m) \<le> length h2"
    and r: "r \<in> set (lines m)"
  shows "heap (insert_line p v (m\<lparr>heap := h2\<rparr>)) ! r =
     (if int p + 1 \<le> num (heap m ! r) then shift1 1 (h2 ! r) else h2 ! r)"
proof -
  note C = numberedD[OF c]
  from C(2) len have b: "\<forall>r\<in>set (lines (m\<lparr>heap := h2\<rparr>)). r < length (heap (m\<lparr>heap := h2\<rparr>))"
    by auto
  from C(1) have d: "distinct (lines (m\<lparr>heap := h2\<rparr>))" by simp
  from b r have "r < length (heap (m\<lparr>heap := h2\<rparr>))" by simp
  from insert_line_nth[OF d b this, of p v] contiguous_drop[OF C(3) C(1) r, of p]
  show ?thesis by simp
qed

lemma insert_line_new:
  assumes c: "numbered m" and len: "length (heap m) < length h2"
  shows "heap (insert_line p v (m\<lparr>heap := h2\<rparr>)) ! length (heap m) = h2 ! length (heap m)"
proof -
  note C = numberedD[OF c]
  from C(2) len have b: "\<forall>r\<in>set (lines (m\<lparr>heap := h2\<rparr>)). r < length (heap (m\<lparr>heap := h2\<rparr>))"
    by auto
  from C(1) have d: "distinct (lines (m\<lparr>heap := h2\<rparr>))" by simp
  from len have l: "length (heap m) < length (heap (m\<lparr>heap := h2\<rparr>))" by simp
  from C(2) have "length (heap m) \<notin> set (drop p (lines m))"
    by (auto dest: in_set_dropD)
  with insert_line_nth[OF d b l, of p v] show ?thesis by simp
qed

text \<open>A new key of an existing section with a name that is not empty.\<close>

lemma set_section_inserted:
  assumes c: "numbered m"
    and s: "map_of (sections m) s = Some sr"
    and t: "sr \<in> set (lines m)" "is_section (heap m ! sr)" "sec (heap m ! sr) = s"
    and b: "end_sec (heap m ! sr) \<le> int (length (lines m))"
    and u: "unbroken_at (nat (end_sec (heap m ! sr))) m"
    and k: "map_of (map_sec (heap m ! sr)) k = None" and n: "s \<noteq> []"
  shows "inserted_at (nat (end_sec (heap m ! sr))) (Some sr) m (set_section s k v m)"
    and "heap (set_section s k v m) ! length (heap m) =
           LineValue (end_sec (heap m ! sr) + 1) (Some s) k v"
    and "map_of (map_sec (heap (set_section s k v m) ! sr)) k = Some (length (heap m))"
    and "\<forall>r<length (heap m).
           is_section (heap (set_section s k v m) ! r) = is_section (heap m ! r)"
proof -
  note C = numberedD[OF c]
  from C(2) t(1) have sb: "sr < length (heap m)" by blast
  define p where "p = nat (end_sec (heap m ! sr))"
  define new where "new = length (heap m)"
  note U = unbroken_atD[OF u, folded p_def]
  have e: "end_sec (heap m ! sr) = int p"
  proof (cases "0 \<le> end_sec (heap m ! sr)")
    case True
    then show ?thesis by (simp add: p_def)
  next
    case False
    then have "p = 0" by (simp add: p_def)
    with U[OF t(1) t(2)] contiguous_num_pos[OF C(3) t(1)] False show ?thesis by simp
  qed
  from U[OF t(1) t(2)] e have sn: "\<not> int p + 1 \<le> num (heap m ! sr)" by simp
  from b e have p: "p \<le> length (lines m)" by simp
  from t(1) have ne: "lines m \<noteq> []" by auto
  define h2 where "h2 = (heap m)[sr := add_end 1 (heap m ! sr)] @ [LineValue (int p + 1) (Some s) k v]"
  define m3 where "m3 = insert_line p new (m\<lparr>heap := h2\<rparr>)"
  define m' where "m' = m3\<lparr>heap := (heap m3)[sr := map_set k new (heap m3 ! sr)]\<rparr>"
  from set_section_new_key[OF s k sb t(2) t(3) n ne e p, of v]
  have m': "set_section s k v m = m'"
    by (simp add: Let_def m'_def m3_def h2_def new_def)
  have l2: "length h2 = Suc new" by (simp add: h2_def new_def)
  have l3: "length (heap m3) = Suc new" by (simp add: m3_def l2)
  have n3: "lines m3 = take p (lines m) @ new # drop p (lines m)" by (simp add: m3_def)
  have srn: "sr < new" using sb by (simp add: new_def)
  have h2: "h2 ! r = (if r = sr then add_end 1 (heap m ! sr) else heap m ! r)"
    if "r < new" for r
    using that by (simp add: h2_def new_def nth_append nth_list_update)
  have h2n: "h2 ! new = LineValue (int p + 1) (Some s) k v"
    by (simp add: h2_def new_def nth_append)
  have h3: "heap m3 ! r = (if int p + 1 \<le> num (heap m ! r) then shift1 1 (h2 ! r) else h2 ! r)"
    if "r \<in> set (lines m)" for r
    unfolding m3_def using that l2 by (intro insert_line_old[OF c]) (simp_all add: new_def)
  have h3n: "heap m3 ! new = h2 ! new"
    unfolding m3_def new_def using l2 by (intro insert_line_new[OF c]) (simp add: new_def)
  have k3: "is_section (heap m3 ! r) = is_section (heap m ! r)" if "r < new" for r
  proof -
    have d: "distinct (lines (m\<lparr>heap := h2\<rparr>))" using C(1) by simp
    have b: "\<forall>r\<in>set (lines (m\<lparr>heap := h2\<rparr>)). r < length (heap (m\<lparr>heap := h2\<rparr>))"
      using C(2) l2 by (auto simp: new_def)
    have rl: "r < length (heap (m\<lparr>heap := h2\<rparr>))" using that l2 by simp
    from insert_line_nth[OF d b rl, of p new]
    have "is_section (heap m3 ! r) = is_section (h2 ! r)"
      by (simp add: m3_def)
    with h2[OF that] show ?thesis by simp
  qed
  have s3: "heap m3 ! sr = add_end 1 (heap m ! sr)"
    using h3[OF t(1)] h2[OF srn] sn by simp
  have hm: "heap m' ! r = (if r = sr then map_set k new (add_end 1 (heap m ! sr))
      else heap m3 ! r)" if "r < Suc new" for r
    using that srn s3 l3 by (simp add: m'_def nth_list_update)
  have lm: "lines m' = take p (lines m) @ new # drop p (lines m)" by (simp add: m'_def n3)
  have hl: "length (heap m') = Suc new" by (simp add: m'_def l3)
  have nw: "heap m' ! new = LineValue (int p + 1) (Some s) k v"
    using hm[of new] srn h3n h2n by simp
  have "inserted_at p (Some sr) m m'"
  proof (rule inserted_atI)
    from p show "p \<le> length (lines m)" .
    from lm show "lines m' = take p (lines m) @ length (heap m) # drop p (lines m)"
      by (simp add: new_def)
    from hl show "length (heap m') = Suc (length (heap m))" by (simp add: new_def)
    from nw show "num (heap m' ! length (heap m)) = int p + 1" by (simp add: new_def)
  next
    fix r assume r: "r \<in> set (lines m)"
    with C(2) have b: "r < new" by (auto simp: new_def)
    then have b': "r < Suc new" by simp
    show "num (heap m' ! r) =
        (if int p + 1 \<le> num (heap m ! r) then num (heap m ! r) + 1 else num (heap m ! r))"
    proof (cases "r = sr")
      case True
      with hm[OF b'] sn show ?thesis by simp
    next
      case False
      with hm[OF b'] h3[OF r] h2[OF b] show ?thesis by simp
    qed
  next
    fix r assume r: "r \<in> set (lines m)" and rs: "is_section (heap m ! r)"
    from r C(2) have b: "r < new" by (auto simp: new_def)
    then have b': "r < Suc new" by simp
    show "end_sec (heap m' ! r) =
        (if Some sr = Some r \<or> int p + 1 \<le> end_sec (heap m ! r)
         then end_sec (heap m ! r) + 1 else end_sec (heap m ! r))"
    proof (cases "r = sr")
      case True
      with hm[OF b'] t(2) show ?thesis by simp
    next
      case False
      with hm[OF b'] h3[OF r] h2[OF b] rs U[OF r rs] show ?thesis by simp
    qed
  qed
  then show "inserted_at (nat (end_sec (heap m ! sr))) (Some sr) m (set_section s k v m)"
    by (simp add: m' p_def)
  from nw e show "heap (set_section s k v m) ! length (heap m) =
      LineValue (end_sec (heap m ! sr) + 1) (Some s) k v"
    by (simp add: m' new_def)
  from hm[of sr] srn t(2)
  show "map_of (map_sec (heap (set_section s k v m) ! sr)) k = Some (length (heap m))"
    by (simp add: m' update_conv' new_def)
  show "\<forall>r<length (heap m).
      is_section (heap (set_section s k v m) ! r) = is_section (heap m ! r)"
  proof (intro allI impI)
    fix r assume "r < length (heap m)"
    then have b: "r < new" by (simp add: new_def)
    then have b': "r < Suc new" by simp
    from hm[OF b'] k3[OF b] show
      "is_section (heap (set_section s k v m) ! r) = is_section (heap m ! r)"
      by (simp add: m')
  qed
qed

text \<open>A key of the global scope.\<close>

lemma set_global_inserted:
  assumes c: "numbered m" and u: "unbroken_at (first_section_index m) m"
  shows "inserted_at (first_section_index m) None m (set_global a b m)"
    and "heap (set_global a b m) ! length (heap m) =
           LineValue (int (first_section_index m) + 1) None a b"
    and "map_of (global (set_global a b m)) a = Some (length (heap m))"
proof -
  note C = numberedD[OF c]
  let ?p = "first_section_index m"
  let ?new = "length (heap m)"
  let ?h2 = "heap m @ [LineValue (int ?p + 1) None a b]"
  let ?m3 = "insert_line ?p ?new (m\<lparr>heap := ?h2\<rparr>)"
  let ?m' = "?m3\<lparr>global := AList.update a ?new (global m)\<rparr>"
  from set_global_eq[OF C(2), of a b] have m': "set_global a b m = ?m'" .
  have h3: "heap ?m3 ! r =
      (if int ?p + 1 \<le> num (heap m ! r) then shift1 1 (heap m ! r) else heap m ! r)"
    if "r \<in> set (lines m)" for r
  proof -
    from that C(2) have "r < ?new" by blast
    with insert_line_old[OF c _ that, of ?h2 ?p ?new] show ?thesis by (simp add: nth_append)
  qed
  have new: "heap ?m3 ! ?new = LineValue (int ?p + 1) None a b"
    using insert_line_new[OF c, of ?h2 ?p ?new] by simp
  show "inserted_at ?p None m (set_global a b m)"
    unfolding m'
  proof (rule inserted_atI)
    show "?p \<le> length (lines m)" by (rule first_section_index_le)
    show "lines ?m' = take ?p (lines m) @ ?new # drop ?p (lines m)" by simp
    show "length (heap ?m') = Suc ?new" by simp
    from new show "num (heap ?m' ! ?new) = int ?p + 1" by simp
  next
    fix r assume r: "r \<in> set (lines m)"
    from h3[OF r] show "num (heap ?m' ! r) =
        (if int ?p + 1 \<le> num (heap m ! r) then num (heap m ! r) + 1 else num (heap m ! r))"
      by simp
  next
    fix r assume r: "r \<in> set (lines m)" and rs: "is_section (heap m ! r)"
    from section_behind_first[OF C(1) r rs] contiguous_drop[OF C(3) C(1) r, of ?p]
    have 1: "int ?p + 1 \<le> num (heap m ! r)" by simp
    with unbroken_atD[OF u r rs] have 2: "int ?p + 1 \<le> end_sec (heap m ! r)" by simp
    from h3[OF r] 1 2 rs show "end_sec (heap ?m' ! r) =
        (if None = Some r \<or> int ?p + 1 \<le> end_sec (heap m ! r)
         then end_sec (heap m ! r) + 1 else end_sec (heap m ! r))"
      by simp
  qed
  from new show "heap (set_global a b m) ! ?new = LineValue (int ?p + 1) None a b"
    unfolding m' by simp
  show "map_of (global (set_global a b m)) a = Some ?new"
    unfolding m' by (simp add: update_conv')
qed

text \<open>Ordered ranges are not split at the end of a section or before the first one.\<close>

lemma ranges_unbroken:
  assumes c: "numbered m" and o: "ranges_ordered m"
    and t: "sr \<in> set (lines m)" "is_section (heap m ! sr)"
  shows "unbroken_at (nat (end_sec (heap m ! sr))) m"
  unfolding unbroken_at_def list_all_iff
proof (intro ballI impI)
  note C = numberedD[OF c]
  note O = ranges_orderedD[OF o t]
  from contiguous_num_pos[OF C(3) t(1)] O(1)
  have e: "int (nat (end_sec (heap m ! sr))) = end_sec (heap m ! sr)" by simp
  fix r assume r: "r \<in> set (lines m)" and rs: "is_section (heap m ! r)"
  note R = ranges_orderedD[OF o r rs]
  show "(int (nat (end_sec (heap m ! sr))) + 1 \<le> num (heap m ! r)) =
      (int (nat (end_sec (heap m ! sr))) + 1 \<le> end_sec (heap m ! r))"
  proof (cases "r = sr")
    case True
    with O(1) e show ?thesis by simp
  next
    case False
    with num_inj[OF C(3) r t(1)] have "num (heap m ! r) \<noteq> num (heap m ! sr)" by blast
    then consider "num (heap m ! r) < num (heap m ! sr)" | "num (heap m ! sr) < num (heap m ! r)"
      by linarith
    then show ?thesis
    proof cases
      case 1
      from R(2)[OF t 1] O(1) R(1) e show ?thesis by simp
    next
      case 2
      from O(2)[OF r rs 2] R(1) e show ?thesis by simp
    qed
  qed
qed

lemma ranges_unbroken_first:
  assumes c: "numbered m" and o: "ranges_ordered m"
  shows "unbroken_at (first_section_index m) m"
  unfolding unbroken_at_def list_all_iff
proof (intro ballI impI)
  note C = numberedD[OF c]
  fix r assume r: "r \<in> set (lines m)" and rs: "is_section (heap m ! r)"
  from section_behind_first[OF C(1) r rs] contiguous_drop[OF C(3) C(1) r, of "first_section_index m"]
  have "int (first_section_index m) + 1 \<le> num (heap m ! r)" by simp
  with ranges_orderedD(1)[OF o r rs]
  show "(int (first_section_index m) + 1 \<le> num (heap m ! r)) =
      (int (first_section_index m) + 1 \<le> end_sec (heap m ! r))"
    by simp
qed

lemma inserted_at_length: "inserted_at p owner m m' \<Longrightarrow> length (lines m') = length (lines m) + 1"
  by (simp add: inserted_at_def)
section \<open>Ordered ranges are preserved\<close>

lemma inserted_atD:
  assumes "inserted_at p owner m m'"
  shows "lines m' = take p (lines m) @ length (heap m) # drop p (lines m)"
    and "length (heap m') = Suc (length (heap m))"
    and "num (heap m' ! length (heap m)) = int p + 1"
    and "\<And>r. r \<in> set (lines m) \<Longrightarrow> num (heap m' ! r) =
        (if int p + 1 \<le> num (heap m ! r) then num (heap m ! r) + 1 else num (heap m ! r))"
    and "\<And>r. r \<in> set (lines m) \<Longrightarrow> is_section (heap m ! r) \<Longrightarrow> end_sec (heap m' ! r) =
        (if owner = Some r \<or> int p + 1 \<le> end_sec (heap m ! r)
         then end_sec (heap m ! r) + 1 else end_sec (heap m ! r))"
  using assms by (auto simp: inserted_at_def list_all_iff)

lemma ranges_orderedI:
  assumes "\<And>r. r \<in> set (lines m) \<Longrightarrow> is_section (heap m ! r) \<Longrightarrow>
      num (heap m ! r) \<le> end_sec (heap m ! r)"
    and "\<And>r. r \<in> set (lines m) \<Longrightarrow> is_section (heap m ! r) \<Longrightarrow>
      end_sec (heap m ! r) \<le> int (length (lines m))"
    and "\<And>r r'. r \<in> set (lines m) \<Longrightarrow> is_section (heap m ! r) \<Longrightarrow>
      r' \<in> set (lines m) \<Longrightarrow> is_section (heap m ! r') \<Longrightarrow>
      num (heap m ! r) < num (heap m ! r') \<Longrightarrow> end_sec (heap m ! r) < num (heap m ! r')"
  shows "ranges_ordered m"
  unfolding ranges_ordered_def list_all_iff using assms by blast

text \<open>One record inserted, for an owner whose range ends right before it if any.\<close>

lemma inserted_ranges:
  assumes i: "inserted_at p owner m m'" and o: "ranges_ordered m"
    and kinds: "\<forall>r\<in>set (lines m). is_section (heap m' ! r) = is_section (heap m ! r)"
    and nw: "\<not> is_section (heap m' ! length (heap m))"
    and ow: "\<forall>sr. owner = Some sr \<longrightarrow> end_sec (heap m ! sr) = int p"
  shows "ranges_ordered m'"
proof (rule ranges_orderedI)
  note I = inserted_atD[OF i]
  have mem: "r \<in> set (lines m) \<and> is_section (heap m ! r)"
    if "r \<in> set (lines m')" "is_section (heap m' ! r)" for r
  proof -
    from that(1) I(1)
    have "r = length (heap m) \<or> r \<in> set (take p (lines m)) \<or> r \<in> set (drop p (lines m))"
      by auto
    with that(2) nw have "r \<in> set (lines m)" by (auto dest: in_set_takeD in_set_dropD)
    with kinds that(2) show ?thesis by simp
  qed
  have len: "int (length (lines m')) = int (length (lines m)) + 1" using I(1) by simp
  {
    fix r assume a: "r \<in> set (lines m')" "is_section (heap m' ! r)"
    from mem[OF a] have rm: "r \<in> set (lines m)" and rs: "is_section (heap m ! r)" by simp_all
    note O = ranges_orderedD[OF o rm rs]
    from I(4)[OF rm] I(5)[OF rm rs] O(1)
    show "num (heap m' ! r) \<le> end_sec (heap m' ! r)" by (simp split: if_splits)
    from I(5)[OF rm rs] O(3) len
    show "end_sec (heap m' ! r) \<le> int (length (lines m'))" by (simp split: if_splits)
  next
    fix r r' assume a: "r \<in> set (lines m')" "is_section (heap m' ! r)"
      and b: "r' \<in> set (lines m')" "is_section (heap m' ! r')"
      and lt: "num (heap m' ! r) < num (heap m' ! r')"
    from mem[OF a] have rm: "r \<in> set (lines m)" and rs: "is_section (heap m ! r)" by simp_all
    from mem[OF b] have rm': "r' \<in> set (lines m)" and rs': "is_section (heap m ! r')"
      by simp_all
    note O = ranges_orderedD[OF o rm rs]
    from lt I(4)[OF rm] I(4)[OF rm'] have "num (heap m ! r) < num (heap m ! r')"
      by (simp split: if_splits)
    from O(2)[OF rm' rs' this] have e: "end_sec (heap m ! r) < num (heap m ! r')" .
    show "end_sec (heap m' ! r) < num (heap m' ! r')"
    proof (cases "owner = Some r")
      case True
      with ow have "end_sec (heap m ! r) = int p" by simp
      with e I(4)[OF rm'] I(5)[OF rm rs] True show ?thesis by simp
    next
      case False
      with e I(4)[OF rm'] I(5)[OF rm rs] show ?thesis by (simp split: if_splits)
    qed
  }
qed

text \<open>The same records with the same numbers, kinds and ends.\<close>

lemma ranges_ordered_cong:
  assumes "lines m' = lines m"
    and "\<forall>r\<in>set (lines m). num (heap m' ! r) = num (heap m ! r) \<and>
          is_section (heap m' ! r) = is_section (heap m ! r) \<and>
          (is_section (heap m ! r) \<longrightarrow> end_sec (heap m' ! r) = end_sec (heap m ! r))"
    and "ranges_ordered m"
  shows "ranges_ordered m'"
proof (rule ranges_orderedI)
  {
    fix r assume a: "r \<in> set (lines m')" "is_section (heap m' ! r)"
    with assms(1,2) have rm: "r \<in> set (lines m)" and rs: "is_section (heap m ! r)" by simp_all
    note O = ranges_orderedD[OF assms(3) rm rs]
    from assms(2) rm rs O(1) show "num (heap m' ! r) \<le> end_sec (heap m' ! r)" by simp
    from assms(1,2) rm rs O(3) show "end_sec (heap m' ! r) \<le> int (length (lines m'))" by simp
  next
    fix r r' assume a: "r \<in> set (lines m')" "is_section (heap m' ! r)"
      and b: "r' \<in> set (lines m')" "is_section (heap m' ! r')"
      and lt: "num (heap m' ! r) < num (heap m' ! r')"
    from a assms(1,2) have rm: "r \<in> set (lines m)" and rs: "is_section (heap m ! r)" by simp_all
    from b assms(1,2) have rm': "r' \<in> set (lines m)" and rs': "is_section (heap m ! r')"
      by simp_all
    from lt assms(2) rm rm' have "num (heap m ! r) < num (heap m ! r')" by simp
    from ranges_orderedD(2)[OF assms(3) rm rs rm' rs' this] assms(2) rm rs rm'
    show "end_sec (heap m' ! r) < num (heap m' ! r')" by simp
  }
qed

text \<open>
  A record appended at the end: a record that is not a section, after which the end of
  the last section \<open>cur\<close>, if any, may move to the new line; or a new section.
\<close>

lemma appended_ranges:
  assumes o: "ranges_ordered m" and c: "contiguous m"
    and l: "lines m' = lines m @ [new]" and nw: "\<not> is_section (heap m' ! new)"
    and old: "\<forall>r\<in>set (lines m). num (heap m' ! r) = num (heap m ! r) \<and>
          is_section (heap m' ! r) = is_section (heap m ! r)"
    and ends: "\<forall>r\<in>set (lines m). is_section (heap m ! r) \<longrightarrow>
          end_sec (heap m' ! r) = end_sec (heap m ! r) \<or>
          (cur = Some r \<and> end_sec (heap m' ! r) = int (length (lines m)) + 1)"
    and last: "last_section cur m"
  shows "ranges_ordered m'"
proof (rule ranges_orderedI)
  have mem: "r \<in> set (lines m) \<and> is_section (heap m ! r)"
    if "r \<in> set (lines m')" "is_section (heap m' ! r)" for r
  proof -
    from that l nw have "r \<in> set (lines m)" by auto
    with old that(2) show ?thesis by simp
  qed
  have top: "num (heap m ! r) \<le> int (length (lines m))" if "r \<in> set (lines m)" for r
  proof -
    from that obtain i where i: "i < length (lines m)" and r: "lines m ! i = r"
      by (auto simp: in_set_conv_nth)
    from contiguous_nth[OF c i] r i show ?thesis by simp
  qed
  {
    fix r assume a: "r \<in> set (lines m')" "is_section (heap m' ! r)"
    from mem[OF a] have rm: "r \<in> set (lines m)" and rs: "is_section (heap m ! r)" by simp_all
    note O = ranges_orderedD[OF o rm rs]
    from old ends rm rs O(1) top[OF rm]
    show "num (heap m' ! r) \<le> end_sec (heap m' ! r)" by auto
    from ends rm rs O(3) l
    show "end_sec (heap m' ! r) \<le> int (length (lines m'))" by auto
  next
    fix r r' assume a: "r \<in> set (lines m')" "is_section (heap m' ! r)"
      and b: "r' \<in> set (lines m')" "is_section (heap m' ! r')"
      and lt: "num (heap m' ! r) < num (heap m' ! r')"
    from mem[OF a] have rm: "r \<in> set (lines m)" and rs: "is_section (heap m ! r)" by simp_all
    from mem[OF b] have rm': "r' \<in> set (lines m)" and rs': "is_section (heap m ! r')"
      by simp_all
    from lt old rm rm' have n: "num (heap m ! r) < num (heap m ! r')" by simp
    from ends rm rs consider "end_sec (heap m' ! r) = end_sec (heap m ! r)" | "cur = Some r"
      by blast
    then show "end_sec (heap m' ! r) < num (heap m' ! r')"
    proof cases
      case 1
      with ranges_orderedD(2)[OF o rm rs rm' rs' n] old rm' show ?thesis by simp
    next
      case 2
      with last rm' rs' have "num (heap m ! r') \<le> num (heap m ! r)"
        by (simp add: last_section_def list_all_iff)
      with n show ?thesis by simp
    qed
  }
qed

lemma new_section_ranges:
  assumes o: "ranges_ordered m" and c: "numbered m"
  shows "ranges_ordered
       (m\<lparr>heap := heap m @ [LineSection (int (length (lines m)) + 1) s []
                               (int (length (lines m)) + 1)],
          lines := lines m @ [length (heap m)],
          sections := secs\<rparr>)"
    (is "ranges_ordered ?m'")
proof (rule ranges_orderedI)
  note C = numberedD[OF c]
  let ?new = "length (heap m)"
  have h: "heap ?m' ! r = heap m ! r" if "r \<in> set (lines m)" for r
    using that C(2) by (simp add: nth_append)
  have hn: "heap ?m' ! ?new = LineSection (int (length (lines m)) + 1) s []
      (int (length (lines m)) + 1)"
    by simp
  have top: "num (heap m ! r) \<le> int (length (lines m))" if "r \<in> set (lines m)" for r
  proof -
    from that obtain i where i: "i < length (lines m)" and r: "lines m ! i = r"
      by (auto simp: in_set_conv_nth)
    from contiguous_nth[OF C(3) i] r i show ?thesis by simp
  qed
  have cases: "r = ?new \<or> r \<in> set (lines m)" if "r \<in> set (lines ?m')" for r
    using that by auto
  {
    fix r assume a: "r \<in> set (lines ?m')" "is_section (heap ?m' ! r)"
    from cases[OF a(1)] show "num (heap ?m' ! r) \<le> end_sec (heap ?m' ! r)"
    proof
      assume "r = ?new"
      then show ?thesis by simp
    next
      assume rm: "r \<in> set (lines m)"
      with a(2) h have "is_section (heap m ! r)" by simp
      from ranges_orderedD(1)[OF o rm this] h[OF rm] show ?thesis by simp
    qed
    from cases[OF a(1)] show "end_sec (heap ?m' ! r) \<le> int (length (lines ?m'))"
    proof
      assume "r = ?new"
      then show ?thesis by simp
    next
      assume rm: "r \<in> set (lines m)"
      with a(2) h have "is_section (heap m ! r)" by simp
      from ranges_orderedD(3)[OF o rm this] h[OF rm] show ?thesis by simp
    qed
  next
    fix r r' assume a: "r \<in> set (lines ?m')" "is_section (heap ?m' ! r)"
      and b: "r' \<in> set (lines ?m')" "is_section (heap ?m' ! r')"
      and lt: "num (heap ?m' ! r) < num (heap ?m' ! r')"
    from cases[OF a(1)] show "end_sec (heap ?m' ! r) < num (heap ?m' ! r')"
    proof
      assume rn: "r = ?new"
      from cases[OF b(1)] show ?thesis
      proof
        assume "r' = ?new"
        with rn lt show ?thesis by simp
      next
        assume rm': "r' \<in> set (lines m)"
        from top[OF rm'] h[OF rm'] rn lt show ?thesis by simp
      qed
    next
      assume rm: "r \<in> set (lines m)"
      with a(2) h have rs: "is_section (heap m ! r)" by simp
      note O = ranges_orderedD[OF o rm rs]
      from cases[OF b(1)] show ?thesis
      proof
        assume "r' = ?new"
        with O(3) h[OF rm] show ?thesis by simp
      next
        assume rm': "r' \<in> set (lines m)"
        with b(2) h have rs': "is_section (heap m ! r')" by simp
        from lt h[OF rm] h[OF rm'] have "num (heap m ! r) < num (heap m ! r')" by simp
        from O(2)[OF rm' rs' this] h[OF rm] h[OF rm'] show ?thesis by simp
      qed
    qed
  }
qed

section \<open>\<open>set\<close> and \<open>parse\<close> keep the ranges ordered\<close>

lemma set_global_kinds:
  assumes "r < length (heap m)"
  shows "is_section (heap (set_global a b m) ! r) = is_section (heap m ! r)"
proof -
  from set_global_effect[of a b m]
  have sim: "list_all2 same_content (heap m @ [LineValue 0 None a b]) (heap (set_global a b m))"
    by simp
  with assms have "same_content ((heap m @ [LineValue 0 None a b]) ! r) (heap (set_global a b m) ! r)"
    by (simp add: list_all2_conv_all_nth)
  with assms have "same_content (heap m ! r) (heap (set_global a b m) ! r)"
    by (simp add: nth_append)
  then show ?thesis by (rule same_content_fields(1))
qed

lemma set_global_ranges:
  assumes c: "numbered m" and o: "ranges_ordered m"
  shows "ranges_ordered (set_global a b m)"
proof -
  note C = numberedD[OF c]
  note G = set_global_inserted[OF c ranges_unbroken_first[OF c o], of a b]
  have k: "\<forall>r\<in>set (lines m). is_section (heap (set_global a b m) ! r) = is_section (heap m ! r)"
  proof
    fix r assume "r \<in> set (lines m)"
    with C(2) have "r < length (heap m)" by blast
    then show "is_section (heap (set_global a b m) ! r) = is_section (heap m ! r)"
      by (rule set_global_kinds)
  qed
  have nw: "\<not> is_section (heap (set_global a b m) ! length (heap m))"
    by (simp add: G(2))
  have ow: "\<forall>sr. (None :: ref option) = Some sr \<longrightarrow>
      end_sec (heap m ! sr) = int (first_section_index m)"
    by simp
  from inserted_ranges[OF G(1) o k nw ow] show ?thesis .
qed

lemma set_section_ranges_existing:
  assumes c: "consistent m" and o: "ranges_ordered m"
    and s: "map_of (sections m) s = Some sr" and n: "s \<noteq> []"
  shows "ranges_ordered (set_section s k v m)"
proof (cases "map_of (map_sec (heap m ! sr)) k")
  case None
  note N = consistent_numbered[OF c]
  note C = numberedD[OF N]
  note D = sound_sectionD[OF consistent_section(1)[OF c s]]
  note S = set_section_inserted[OF N s D(1) D(2) D(3) ranges_orderedD(3)[OF o D(1) D(2)]
      ranges_unbroken[OF N o D(1) D(2)] None n, of v]
  have k: "\<forall>r\<in>set (lines m). is_section (heap (set_section s k v m) ! r) = is_section (heap m ! r)"
    using C(2) S(4) by auto
  have nw: "\<not> is_section (heap (set_section s k v m) ! length (heap m))"
    by (simp add: S(2))
  from contiguous_num_pos[OF C(3) D(1)] ranges_orderedD(1)[OF o D(1) D(2)]
  have "end_sec (heap m ! sr) = int (nat (end_sec (heap m ! sr)))" by simp
  then have ow: "\<forall>x. Some sr = Some x \<longrightarrow>
      end_sec (heap m ! x) = int (nat (end_sec (heap m ! sr)))"
    by simp
  from inserted_ranges[OF S(1) o k nw ow] show ?thesis .
next
  case (Some vr)
  let ?m' = "m\<lparr>heap := (heap m)[vr := set_val v (heap m ! vr)]\<rparr>"
  have "ranges_ordered ?m'"
  proof (rule ranges_ordered_cong[OF _ _ o])
    show "lines ?m' = lines m" by simp
    show "\<forall>r\<in>set (lines m). num (heap ?m' ! r) = num (heap m ! r) \<and>
          is_section (heap ?m' ! r) = is_section (heap m ! r) \<and>
          (is_section (heap m ! r) \<longrightarrow> end_sec (heap ?m' ! r) = end_sec (heap m ! r))"
    proof
      fix r assume "r \<in> set (lines m)"
      have "heap ?m' ! r = heap m ! r" if "is_section (heap m ! r)"
        using section_not_value[OF that] by (auto simp: nth_update_fun set_val_other)
      then show "num (heap ?m' ! r) = num (heap m ! r) \<and>
          is_section (heap ?m' ! r) = is_section (heap m ! r) \<and>
          (is_section (heap m ! r) \<longrightarrow> end_sec (heap ?m' ! r) = end_sec (heap m ! r))"
        by (simp add: nth_update_fun)
    qed
  qed
  with set_section_existing[OF s Some, of v] show ?thesis by simp
qed

lemma set_section_ranges:
  assumes c: "consistent m" and o: "ranges_ordered m" and n: "s \<noteq> []"
  shows "ranges_ordered (set_section s k v m)"
proof (cases "map_of (sections m) s")
  case None
  let ?m' = "m\<lparr>heap := heap m @ [LineSection (int (length (lines m)) + 1) s []
                               (int (length (lines m)) + 1)],
          lines := lines m @ [length (heap m)],
          sections := AList.update s (length (heap m)) (sections m)\<rparr>"
  have 1: "map_of (sections ?m') s = Some (length (heap m))" by (simp add: update_conv')
  note c' = consistent_new_section[OF c, of s]
  note o' = new_section_ranges[OF o consistent_numbered[OF c],
      where s = s and secs = "AList.update s (length (heap m)) (sections m)"]
  from set_section_ranges_existing[OF c' o' 1 n, of k v] set_section_new_section[OF None, of k v]
  show ?thesis by simp
next
  case (Some sr)
  from set_section_ranges_existing[OF c o Some n] show ?thesis .
qed

lemma IniMap_set_ranges:
  assumes c: "consistent m" and o: "ranges_ordered m" and t: "\<not> targets_unnamed (Set a b v)"
  shows "ranges_ordered (IniMap_set a b v m)"
proof (cases "\<exists>k. b = VString k \<and> v \<noteq> VUndefined")
  case True
  then obtain k where k: "b = VString k" "v \<noteq> VUndefined" by blast
  with t have "a \<noteq> []" by simp
  from set_section_ranges[OF c o this, of k v] k show ?thesis by (simp add: IniMap_set_def)
next
  case False
  then have "IniMap_set a b v m = set_global a b m"
    by (auto simp: IniMap_set_def split: IniValue.splits)
  with set_global_ranges[OF consistent_numbered[OF c] o, of a b] show ?thesis by simp
qed

lemma last_section_append:
  assumes "last_section cur m" and "lines m' = lines m @ [new]"
    and "\<not> is_section (heap m' ! new)"
    and "\<forall>r\<in>set (lines m). num (heap m' ! r) = num (heap m ! r) \<and>
          is_section (heap m' ! r) = is_section (heap m ! r)"
  shows "last_section cur m'"
  using assms by (cases cur) (auto simp: last_section_def list_all_iff)

lemma last_sectionD:
  assumes "last_section cur m"
  shows "\<forall>c. cur = Some c \<longrightarrow> c \<in> set (lines m) \<and> is_section (heap m ! c)"
  using assms by (auto simp: last_section_def)

lemma parse_line_ranges:
  assumes c: "consistent m" and o: "ranges_ordered m" and n: "n = int (length (lines m)) + 1"
    and last: "last_section cur m"
    and r: "parse_line rv l n (cur, m) = Inr (cur', m')"
  shows "ranges_ordered m'" and "last_section cur' m'"
proof -
  note N = consistent_numbered[OF c]
  note C = numberedD[OF N]
  let ?new = "length (heap m)"
  have old: "\<forall>r\<in>set (lines m). num ((heap m @ [x]) ! r) = num (heap m ! r) \<and>
      is_section ((heap m @ [x]) ! r) = is_section (heap m ! r)" for x
    using C(2) by (auto simp: nth_append)
  have ends: "\<forall>r\<in>set (lines m). is_section (heap m ! r) \<longrightarrow>
      end_sec ((heap m @ [x]) ! r) = end_sec (heap m ! r) \<or>
      (cur = Some r \<and> end_sec ((heap m @ [x]) ! r) = int (length (lines m)) + 1)" for x
    using C(2) by (auto simp: nth_append)
  have plain: "ranges_ordered m' \<and> last_section cur m'"
    if e: "lines m' = lines m @ [?new]" "heap m' = heap m @ [x]" and x: "\<not> is_section x"
    for x
  proof -
    have nw: "\<not> is_section (heap m' ! ?new)" using e x by simp
    have old': "\<forall>r\<in>set (lines m). num (heap m' ! r) = num (heap m ! r) \<and>
        is_section (heap m' ! r) = is_section (heap m ! r)"
      using old[of x] e by simp
    have ends': "\<forall>r\<in>set (lines m). is_section (heap m ! r) \<longrightarrow>
        end_sec (heap m' ! r) = end_sec (heap m ! r) \<or>
        (cur = Some r \<and> end_sec (heap m' ! r) = int (length (lines m)) + 1)"
      using ends[of x] e by simp
    from appended_ranges[OF o C(3) e(1) nw old' ends' last]
      last_section_append[OF last e(1) nw old']
    show ?thesis by simp
  qed
  have "ranges_ordered m' \<and> last_section cur' m'"
  proof (cases "isComment (trim l)")
    case True
    from r parse_line_comment[OF True, of rv n "(cur, m)"]
    have e: "cur' = cur" "m' = m\<lparr>heap := heap m @ [LineComment n (trim l)],
        lines := lines m @ [?new]\<rparr>" by simp_all
    from plain[of "LineComment n (trim l)"] e show ?thesis by simp
  next
    case nc: False
    show ?thesis
    proof (cases "startsWith (trim l) ''[''")
      case True
      let ?s = "section_name (trim l)"
      from r parse_line_section[OF nc True, of rv n cur m]
      have e: "cur' = Some ?new"
        "m' = m\<lparr>heap := heap m @ [LineSection n ?s [] n], lines := lines m @ [?new],
               sections := AList.update ?s ?new (sections m)\<rparr>"
        by (simp_all split: if_splits)
      from new_section_ranges[OF o N, where s = ?s
          and secs = "AList.update ?s ?new (sections m)"] e n
      have 1: "ranges_ordered m'" by simp
      have top: "num (heap m ! x) \<le> int (length (lines m))" if "x \<in> set (lines m)" for x
      proof -
        from that obtain i where i: "i < length (lines m)" and x: "lines m ! i = x"
          by (auto simp: in_set_conv_nth)
        from contiguous_nth[OF C(3) i] x i show ?thesis by simp
      qed
      have "last_section (Some ?new) m'"
        unfolding last_section_def option.case list_all_iff
      proof (intro conjI ballI impI)
        show "?new \<in> set (lines m')" using e by simp
        show "is_section (heap m' ! ?new)" using e by simp
        fix x assume "x \<in> set (lines m')" "is_section (heap m' ! x)"
        then have "x = ?new \<or> x \<in> set (lines m)" using e by auto
        then show "num (heap m' ! x) \<le> num (heap m' ! ?new)"
        proof
          assume "x = ?new"
          then show ?thesis by simp
        next
          assume xm: "x \<in> set (lines m)"
          with C(2) have "x < ?new" by blast
          with top[OF xm] e n show ?thesis by (simp add: nth_append)
        qed
      qed
      with 1 e show ?thesis by simp
    next
      case ns: False
      show ?thesis
      proof (cases "CHR ''='' \<in> set (trim l)")
        case False
        with r parse_line_no_assignment[OF nc ns False, of rv n cur m] show ?thesis by simp
      next
        case eq: True
        show ?thesis
        proof (cases "hd (trim l) = CHR ''=''")
          case True
          with r parse_line_empty_key[OF nc ns eq True, of rv n cur m] show ?thesis by simp
        next
          case False
          note kv = parse_line_key_value[OF nc ns eq False, of rv n cur m]
          show ?thesis
          proof (cases cur)
            case None
            let ?x = "LineValue n None (trim (left_hand (trim l)))
                (rv (trim (left_hand (trim l))) (trim (right_hand (trim l))) None)"
            from r kv None
            have e: "cur' = cur" "lines m' = lines m @ [?new]" "heap m' = heap m @ [?x]"
              by (auto simp: Let_def split: if_splits)
            from plain[OF e(2,3)] e(1) show ?thesis by simp
          next
            case (Some c)
            from last_sectionD[OF last] Some
            have cl: "c \<in> set (lines m)" and cs: "is_section (heap m ! c)" by simp_all
            from cl C(2) have cb: "c < ?new" by blast
            let ?k = "trim (left_hand (trim l))"
            let ?x = "LineValue n (Some (sec (heap m ! c))) ?k
                (rv ?k (trim (right_hand (trim l))) (Some (sec (heap m ! c))))"
            let ?h1 = "heap m @ [?x]"
            let ?h2 = "?h1[c := map_set ?k ?new (?h1 ! c)]"
            let ?h3 = "?h2[c := set_end n (?h2 ! c)]"
            from r kv Some
            have e: "cur' = cur" "lines m' = lines m @ [?new]" "heap m' = ?h3"
              by (auto simp: Let_def split: if_splits)
            have h: "?h3 ! x = (if x = c then set_end n (map_set ?k ?new (heap m ! c))
                else heap m ! x)" if "x < ?new" for x
              using that cb by (simp add: nth_append nth_list_update)
            have hn: "?h3 ! ?new = ?x" using cb by (simp add: nth_append nth_list_update)
            have nw: "\<not> is_section (heap m' ! ?new)" using e(3) hn by simp
            have old': "\<forall>x\<in>set (lines m). num (heap m' ! x) = num (heap m ! x) \<and>
                is_section (heap m' ! x) = is_section (heap m ! x)"
            proof
              fix x assume "x \<in> set (lines m)"
              with C(2) have "x < ?new" by blast
              from h[OF this] e(3) show "num (heap m' ! x) = num (heap m ! x) \<and>
                is_section (heap m' ! x) = is_section (heap m ! x)" by simp
            qed
            have ends': "\<forall>x\<in>set (lines m). is_section (heap m ! x) \<longrightarrow>
                end_sec (heap m' ! x) = end_sec (heap m ! x) \<or>
                (cur = Some x \<and> end_sec (heap m' ! x) = int (length (lines m)) + 1)"
            proof (intro ballI impI)
              fix x assume xm: "x \<in> set (lines m)" and xs: "is_section (heap m ! x)"
              from xm C(2) have b: "x < ?new" by blast
              show "end_sec (heap m' ! x) = end_sec (heap m ! x) \<or>
                (cur = Some x \<and> end_sec (heap m' ! x) = int (length (lines m)) + 1)"
              proof (cases "x = c")
                case True
                with h[OF b] e(3) cs have "end_sec (heap m' ! x) = n" by simp
                with True Some n show ?thesis by simp
              next
                case False
                with h[OF b] e(3) show ?thesis by simp
              qed
            qed
            from appended_ranges[OF o C(3) e(2) nw old' ends' last]
              last_section_append[OF last e(2) nw old'] e(1)
            show ?thesis by simp
          qed
        qed
      qed
    qed
  qed
  then show "ranges_ordered m'" and "last_section cur' m'" by simp_all
qed

lemma parse_lines_ranges:
  assumes "consistent m" and "ranges_ordered m" and "n = int (length (lines m)) + 1"
    and "last_section cur m"
    and "parse_lines rv ls n (cur, m) = Inr st'"
  shows "ranges_ordered (snd st')"
  using assms
proof (induction ls arbitrary: n cur m)
  case Nil
  then show ?case by auto
next
  case (Cons l ls)
  from Cons.prems(5) obtain cur1 m1 where 1: "parse_line rv l n (cur, m) = Inr (cur1, m1)"
    and 2: "parse_lines rv ls (n + 1) (cur1, m1) = Inr st'"
    by (auto split: sum.splits)
  note P = parse_line_consistent[OF Cons.prems(1,3) last_sectionD[OF Cons.prems(4)] 1]
  note R = parse_line_ranges[OF Cons.prems(1,2,3,4) 1]
  from parse_line_lines[OF 1] Cons.prems(3)
  have "n + 1 = int (length (lines m1)) + 1" by simp
  from Cons.IH[OF P(1) R(1) this R(2) 2] show ?case .
qed

lemma parse_ranges:
  assumes "consistent m" and "lines m = []" and "parse (JString s) rv m = Inr m'"
  shows "ranges_ordered m'"
proof -
  obtain ls f' where t: "readTextLines s [] (formatting m) = (ls, f')"
    by (cases "readTextLines s [] (formatting m)")
  let ?rv = "case rv of None \<Rightarrow> default_reviver | Some f \<Rightarrow> f"
  let ?m = "m\<lparr>formatting := f'\<rparr>"
  from assms(3) t obtain st where
    p: "parse_lines ?rv ls 1 (None, ?m) = Inr st" and m': "m' = snd st"
    by (auto simp: parse_def Let_def split: sum.splits)
  from assms(1) have 1: "consistent ?m" by simp
  from assms(2) have 2: "ranges_ordered ?m" by (simp add: ranges_ordered_def)
  from assms(2) have 3: "1 = int (length (lines ?m)) + 1" by simp
  from assms(2) have 4: "last_section None ?m" by (simp add: last_section_def)
  from parse_lines_ranges[OF 1 2 3 4 p] m' show ?thesis by simp
qed

section \<open>The states reached by one parse followed by sets\<close>

lemma run_sets_ranges:
  assumes "list_all is_Set ops" and "\<not> list_ex targets_unnamed ops"
    and "consistent m" and "ranges_ordered m" and "run ops m = Inr m'"
  shows "ranges_ordered m'"
  using assms
proof (induction ops arbitrary: m)
  case Nil
  then show ?case by simp
next
  case (Cons x xs)
  from Cons.prems(1) obtain a b v where x: "x = Set a b v" by (cases x) simp_all
  from Cons.prems(2) x have t: "\<not> targets_unnamed (Set a b v)" and ts: "\<not> list_ex targets_unnamed xs"
    by simp_all
  from Cons.prems(5) x have r: "run xs (IniMap_set a b v m) = Inr m'" by simp
  from Cons.prems(1) have s: "list_all is_Set xs" by simp
  from Cons.IH[OF s ts consistent_IniMap_set[OF Cons.prems(3)]
      IniMap_set_ranges[OF Cons.prems(3,4) t] r]
  show ?case .
qed

lemma run_ranges:
  assumes "list_all is_Set (tl ops)" and "\<not> list_ex targets_unnamed ops"
    and "run ops (new_IniMap f) = Inr m"
  shows "consistent m \<and> numbered m \<and> ranges_ordered m"
proof -
  from run_consistent[OF assms(1,3)] have c: "consistent m" .
  have e: "lines (new_IniMap f) = []" by (simp add: new_IniMap_def)
  have o0: "ranges_ordered (new_IniMap f)" by (simp add: ranges_ordered_def new_IniMap_def)
  have "ranges_ordered m"
  proof (cases ops)
    case Nil
    with assms(3) o0 show ?thesis by simp
  next
    case (Cons x xs)
    with assms(1,2) have xs: "list_all is_Set xs" and ts: "\<not> list_ex targets_unnamed xs"
      and t: "\<not> targets_unnamed x" by simp_all
    show ?thesis
    proof (cases x)
      case (Parse s rv)
      with assms(3) Cons obtain m1 where
        1: "parse (JString s) rv (new_IniMap f) = Inr m1" and 2: "run xs m1 = Inr m"
        by (auto split: sum.splits)
      from run_sets_ranges[OF xs ts parse_consistent[OF consistent_new e 1]
          parse_ranges[OF consistent_new e 1] 2]
      show ?thesis .
    next
      case (Set a b v)
      with assms(3) Cons have r: "run xs (IniMap_set a b v (new_IniMap f)) = Inr m" by simp
      from t Set have t': "\<not> targets_unnamed (Set a b v)" by simp
      from run_sets_ranges[OF xs ts consistent_IniMap_set[OF consistent_new]
          IniMap_set_ranges[OF consistent_new o0 t'] r]
      show ?thesis .
    qed
  qed
  with c consistent_numbered[OF c] show ?thesis by simp
qed


text \<open>
  C2 as amended: in a model whose lines are numbered, a call \<open>set(s, k, v)\<close> with a value
  that is not undefined, for a section \<open>s\<close> that exists (its entry in \<open>#sections\<close> refers
  to the section record of that name among the lines), has a name that is not empty, an
  end \<open>end\<close> that is a line of the document and no key \<open>k\<close>, when no range of a section is
  split between the lines \<open>end\<close> and \<open>end + 1\<close>, adds exactly one line: the new value record
  \<open>k = v\<close> of \<open>s\<close> is numbered \<open>end + 1\<close> and placed right after line \<open>end\<close>; the number of
  every line at or after the insertion point is incremented, and so is the end of the
  section and of every other section whose end was at or after the insertion point, all
  other numbers and ends being unchanged; the key map of the section refers to the new
  record. A call \<open>set(a, b)\<close> for the global scope adds exactly one line in the same way,
  before the first section (at the end when there is none), when no range is split
  there. No range is split at these places when the ranges of the sections are ordered
  (\<open>ranges_unbroken\<close>, \<open>ranges_unbroken_first\<close>), and the lines are numbered and the ranges
  ordered in every state reached from the empty model by at most one initial \<open>parse\<close>
  followed by calls of \<open>set\<close> that do not target the section whose name is empty
  (\<open>run_ranges\<close>).
\<close>

theorem C2_set_new_key:
  assumes "numbered m"
  shows "(v \<noteq> VUndefined \<and> s \<noteq> [] \<and> map_of (sections m) s = Some sr \<and>
          sr \<in> set (lines m) \<and> is_section (heap m ! sr) \<and> sec (heap m ! sr) = s \<and>
          end_sec (heap m ! sr) \<le> int (length (lines m)) \<and>
          unbroken_at (nat (end_sec (heap m ! sr))) m \<and>
          map_of (map_sec (heap m ! sr)) k = None \<longrightarrow>
            length (lines (IniMap_set s (VString k) v m)) = length (lines m) + 1 \<and>
            inserted_at (nat (end_sec (heap m ! sr))) (Some sr) m (IniMap_set s (VString k) v m) \<and>
            heap (IniMap_set s (VString k) v m) ! length (heap m) =
              LineValue (end_sec (heap m ! sr) + 1) (Some s) k v \<and>
            map_of (map_sec (heap (IniMap_set s (VString k) v m) ! sr)) k =
              Some (length (heap m))) \<and>
         (unbroken_at (first_section_index m) m \<longrightarrow>
            length (lines (IniMap_set a b VUndefined m)) = length (lines m) + 1 \<and>
            inserted_at (first_section_index m) None m (IniMap_set a b VUndefined m) \<and>
            heap (IniMap_set a b VUndefined m) ! length (heap m) =
              LineValue (int (first_section_index m) + 1) None a b \<and>
            map_of (global (IniMap_set a b VUndefined m)) a = Some (length (heap m)))"
proof -
  have g: "IniMap_set a b VUndefined m = set_global a b m"
    by (simp add: IniMap_set_def split: IniValue.splits)
  have 1: "length (lines (IniMap_set a b VUndefined m)) = length (lines m) + 1 \<and>
         inserted_at (first_section_index m) None m (IniMap_set a b VUndefined m) \<and>
         heap (IniMap_set a b VUndefined m) ! length (heap m) =
           LineValue (int (first_section_index m) + 1) None a b \<and>
         map_of (global (IniMap_set a b VUndefined m)) a = Some (length (heap m))"
    if u: "unbroken_at (first_section_index m) m"
  proof -
    note G = set_global_inserted[OF assms u, of a b]
    show ?thesis unfolding g using G inserted_at_length[OF G(1)] by simp
  qed
  have 2: "length (lines (IniMap_set s (VString k) v m)) = length (lines m) + 1 \<and>
            inserted_at (nat (end_sec (heap m ! sr))) (Some sr) m (IniMap_set s (VString k) v m) \<and>
            heap (IniMap_set s (VString k) v m) ! length (heap m) =
              LineValue (end_sec (heap m ! sr) + 1) (Some s) k v \<and>
            map_of (map_sec (heap (IniMap_set s (VString k) v m) ! sr)) k =
              Some (length (heap m))"
    if h: "v \<noteq> VUndefined" "s \<noteq> []" "map_of (sections m) s = Some sr"
      "map_of (map_sec (heap m ! sr)) k = None"
      and t: "sr \<in> set (lines m)" "is_section (heap m ! sr)" "sec (heap m ! sr) = s"
      and b: "end_sec (heap m ! sr) \<le> int (length (lines m))"
      and u: "unbroken_at (nat (end_sec (heap m ! sr))) m"
  proof -
    from h(1) have e: "IniMap_set s (VString k) v m = set_section s k v m"
      by (simp add: IniMap_set_def)
    note S = set_section_inserted[OF assms h(3) t b u h(4,2), of v]
    show ?thesis unfolding e using S(1,2,3) inserted_at_length[OF S(1)] by simp
  qed
  show ?thesis
  proof (rule conjI)
    show "v \<noteq> VUndefined \<and> s \<noteq> [] \<and> map_of (sections m) s = Some sr \<and>
          sr \<in> set (lines m) \<and> is_section (heap m ! sr) \<and> sec (heap m ! sr) = s \<and>
          end_sec (heap m ! sr) \<le> int (length (lines m)) \<and>
          unbroken_at (nat (end_sec (heap m ! sr))) m \<and>
          map_of (map_sec (heap m ! sr)) k = None \<longrightarrow>
            length (lines (IniMap_set s (VString k) v m)) = length (lines m) + 1 \<and>
            inserted_at (nat (end_sec (heap m ! sr))) (Some sr) m (IniMap_set s (VString k) v m) \<and>
            heap (IniMap_set s (VString k) v m) ! length (heap m) =
              LineValue (end_sec (heap m ! sr) + 1) (Some s) k v \<and>
            map_of (map_sec (heap (IniMap_set s (VString k) v m) ! sr)) k =
              Some (length (heap m))"
      by (intro impI, elim conjE, intro 2; assumption)
    show "unbroken_at (first_section_index m) m \<longrightarrow>
            length (lines (IniMap_set a b VUndefined m)) = length (lines m) + 1 \<and>
            inserted_at (first_section_index m) None m (IniMap_set a b VUndefined m) \<and>
            heap (IniMap_set a b VUndefined m) ! length (heap m) =
              LineValue (int (first_section_index m) + 1) None a b \<and>
            map_of (global (IniMap_set a b VUndefined m)) a = Some (length (heap m))"
      by (intro impI, intro 1; assumption)
  qed
qed

theorem C2_set_new_key_witness:
  "IniMap_set ''t'' (VString ''b'') (VNumber (Finite 2))
     (IniMap_set ''s'' (VString ''a'') (VNumber (Finite 1)) (new_IniMap no_formatting)) =
     \<lparr>global = [], sections = [(''s'', 0), (''t'', 2)], lines = [0, 1, 2, 3],
      formatting = \<lparr>lineBreak = None, pretty = None\<rparr>,
      heap = [LineSection 1 ''s'' [(''a'', 1)] 2,
              LineValue 2 (Some ''s'') ''a'' (VNumber (Finite 1)),
              LineSection 3 ''t'' [(''b'', 3)] 4,
              LineValue 4 (Some ''t'') ''b'' (VNumber (Finite 2))]\<rparr> \<and>
   IniMap_set ''s'' (VString ''c'') (VNumber (Finite 3))
     \<lparr>global = [], sections = [(''s'', 0), (''t'', 2)], lines = [0, 1, 2, 3],
      formatting = \<lparr>lineBreak = None, pretty = None\<rparr>,
      heap = [LineSection 1 ''s'' [(''a'', 1)] 2,
              LineValue 2 (Some ''s'') ''a'' (VNumber (Finite 1)),
              LineSection 3 ''t'' [(''b'', 3)] 4,
              LineValue 4 (Some ''t'') ''b'' (VNumber (Finite 2))]\<rparr> =
     \<lparr>global = [], sections = [(''s'', 0), (''t'', 2)], lines = [0, 1, 4, 2, 3],
      formatting = \<lparr>lineBreak = None, pretty = None\<rparr>,
      heap = [LineSection 1 ''s'' [(''a'', 1), (''c'', 4)] 3,
              LineValue 2 (Some ''s'') ''a'' (VNumber (Finite 1)),
              LineSection 4 ''t'' [(''b'', 3)] 5,
              LineValue 5 (Some ''t'') ''b'' (VNumber (Finite 2)),
              LineValue 3 (Some ''s'') ''c'' (VNumber (Finite 3))]\<rparr> \<and>
   inserted_at 2 (Some 0)
     \<lparr>global = [], sections = [(''s'', 0), (''t'', 2)], lines = [0, 1, 2, 3],
      formatting = \<lparr>lineBreak = None, pretty = None\<rparr>,
      heap = [LineSection 1 ''s'' [(''a'', 1)] 2,
              LineValue 2 (Some ''s'') ''a'' (VNumber (Finite 1)),
              LineSection 3 ''t'' [(''b'', 3)] 4,
              LineValue 4 (Some ''t'') ''b'' (VNumber (Finite 2))]\<rparr>
     \<lparr>global = [], sections = [(''s'', 0), (''t'', 2)], lines = [0, 1, 4, 2, 3],
      formatting = \<lparr>lineBreak = None, pretty = None\<rparr>,
      heap = [LineSection 1 ''s'' [(''a'', 1), (''c'', 4)] 3,
              LineValue 2 (Some ''s'') ''a'' (VNumber (Finite 1)),
              LineSection 4 ''t'' [(''b'', 3)] 5,
              LineValue 5 (Some ''t'') ''b'' (VNumber (Finite 2)),
              LineValue 3 (Some ''s'') ''c'' (VNumber (Finite 3))]\<rparr> \<and>
   IniMap_set ''g'' (VNumber (Finite 3)) VUndefined
     \<lparr>global = [], sections = [(''s'', 0), (''t'', 2)], lines = [0, 1, 2, 3],
      formatting = \<lparr>lineBreak = None, pretty = None\<rparr>,
      heap = [LineSection 1 ''s'' [(''a'', 1)] 2,
              LineValue 2 (Some ''s'') ''a'' (VNumber (Finite 1)),
              LineSection 3 ''t'' [(''b'', 3)] 4,
              LineValue 4 (Some ''t'') ''b'' (VNumber (Finite 2))]\<rparr> =
     \<lparr>global = [(''g'', 4)], sections = [(''s'', 0), (''t'', 2)], lines = [4, 0, 1, 2, 3],
      formatting = \<lparr>lineBreak = None, pretty = None\<rparr>,
      heap = [LineSection 2 ''s'' [(''a'', 1)] 3,
              LineValue 3 (Some ''s'') ''a'' (VNumber (Finite 1)),
              LineSection 4 ''t'' [(''b'', 3)] 5,
              LineValue 5 (Some ''t'') ''b'' (VNumber (Finite 2)),
              LineValue 1 None ''g'' (VNumber (Finite 3))]\<rparr> \<and>
   inserted_at 0 None
     \<lparr>global = [], sections = [(''s'', 0), (''t'', 2)], lines = [0, 1, 2, 3],
      formatting = \<lparr>lineBreak = None, pretty = None\<rparr>,
      heap = [LineSection 1 ''s'' [(''a'', 1)] 2,
              LineValue 2 (Some ''s'') ''a'' (VNumber (Finite 1)),
              LineSection 3 ''t'' [(''b'', 3)] 4,
              LineValue 4 (Some ''t'') ''b'' (VNumber (Finite 2))]\<rparr>
     \<lparr>global = [(''g'', 4)], sections = [(''s'', 0), (''t'', 2)], lines = [4, 0, 1, 2, 3],
      formatting = \<lparr>lineBreak = None, pretty = None\<rparr>,
      heap = [LineSection 2 ''s'' [(''a'', 1)] 3,
              LineValue 3 (Some ''s'') ''a'' (VNumber (Finite 1)),
              LineSection 4 ''t'' [(''b'', 3)] 5,
              LineValue 5 (Some ''t'') ''b'' (VNumber (Finite 2)),
              LineValue 1 None ''g'' (VNumber (Finite 3))]\<rparr>"
proof -
  let ?M = "\<lparr>global = [], sections = [(''s'', 0), (''t'', 2)], lines = [0, 1, 2, 3],
      formatting = \<lparr>lineBreak = None, pretty = None\<rparr>,
      heap = [LineSection 1 ''s'' [(''a'', 1)] 2,
              LineValue 2 (Some ''s'') ''a'' (VNumber (Finite 1)),
              LineSection 3 ''t'' [(''b'', 3)] 4,
              LineValue 4 (Some ''t'') ''b'' (VNumber (Finite 2))]\<rparr>"
  let ?R = "\<lparr>global = [], sections = [(''s'', 0), (''t'', 2)], lines = [0, 1, 4, 2, 3],
      formatting = \<lparr>lineBreak = None, pretty = None\<rparr>,
      heap = [LineSection 1 ''s'' [(''a'', 1), (''c'', 4)] 3,
              LineValue 2 (Some ''s'') ''a'' (VNumber (Finite 1)),
              LineSection 4 ''t'' [(''b'', 3)] 5,
              LineValue 5 (Some ''t'') ''b'' (VNumber (Finite 2)),
              LineValue 3 (Some ''s'') ''c'' (VNumber (Finite 3))]\<rparr>"
  let ?G = "\<lparr>global = [(''g'', 4)], sections = [(''s'', 0), (''t'', 2)], lines = [4, 0, 1, 2, 3],
      formatting = \<lparr>lineBreak = None, pretty = None\<rparr>,
      heap = [LineSection 2 ''s'' [(''a'', 1)] 3,
              LineValue 3 (Some ''s'') ''a'' (VNumber (Finite 1)),
              LineSection 4 ''t'' [(''b'', 3)] 5,
              LineValue 5 (Some ''t'') ''b'' (VNumber (Finite 2)),
              LineValue 1 None ''g'' (VNumber (Finite 3))]\<rparr>"
  have b: "IniMap_set ''t'' (VString ''b'') (VNumber (Finite 2))
     (IniMap_set ''s'' (VString ''a'') (VNumber (Finite 1)) (new_IniMap no_formatting)) = ?M"
    by code_simp
  have c: "numbered ?M" by code_simp
  have u: "unbroken_at 2 ?M" by code_simp
  have u0: "unbroken_at 0 ?M" by code_simp
  have r: "IniMap_set ''s'' (VString ''c'') (VNumber (Finite 3)) ?M = ?R" by code_simp
  have g: "IniMap_set ''g'' (VNumber (Finite 3)) VUndefined ?M = ?G" by code_simp
  have f: "first_section_index ?M = 0" by code_simp
  have h: "VNumber (Finite 3) \<noteq> VUndefined \<and> ''s'' \<noteq> [] \<and>
      map_of (sections ?M) ''s'' = Some 0 \<and> 0 \<in> set (lines ?M) \<and>
      is_section (heap ?M ! 0) \<and> sec (heap ?M ! 0) = ''s'' \<and>
      end_sec (heap ?M ! 0) \<le> int (length (lines ?M)) \<and>
      map_of (map_sec (heap ?M ! 0)) ''c'' = None"
    by simp
  have e: "nat (end_sec (heap ?M ! 0)) = 2" by simp
  note T = C2_set_new_key[OF c, where v = "VNumber (Finite 3)" and s = "''s''" and sr = 0
      and k = "''c''" and a = "''g''" and b = "VNumber (Finite 3)"]
  from u e have u': "unbroken_at (nat (end_sec (heap ?M ! 0))) ?M" by (simp only:)
  from T h u' have "inserted_at (nat (end_sec (heap ?M ! 0))) (Some 0) ?M
      (IniMap_set ''s'' (VString ''c'') (VNumber (Finite 3)) ?M)"
    by blast
  then have 1: "inserted_at 2 (Some 0) ?M ?R" by (simp only: e r)
  from u0 f have u0': "unbroken_at (first_section_index ?M) ?M" by (simp only:)
  from T u0' have "inserted_at (first_section_index ?M) None ?M
      (IniMap_set ''g'' (VNumber (Finite 3)) VUndefined ?M)"
    by blast
  then have 2: "inserted_at 0 None ?M ?G" by (simp only: f g)
  from b r 1 g 2 show ?thesis by blast
qed

theorem C2_set_new_key_counterexample:
  "map_of (sections (new_IniMap no_formatting)) ''s'' = None \<and>
   length (lines (new_IniMap no_formatting)) = 0 \<and>
   length (lines (IniMap_set ''s'' (VString ''k'') (VNumber (Finite 1))
     (new_IniMap no_formatting))) = 2 \<and>
   parse (JString (''[s]'' @ [CHR 0x0A] @ ''a=1'')) None (new_IniMap no_formatting) =
     Inr \<lparr>global = [], sections = [(''s'', 0)], lines = [0, 1],
          formatting = \<lparr>lineBreak = Some LF, pretty = Some False\<rparr>,
          heap = [LineSection 1 ''s'' [(''a'', 1)] 2,
                  LineValue 2 (Some ''s'') ''a'' (VNumber (Finite 1))]\<rparr> \<and>
   parse (JString (''[t]'' @ [CHR 0x0A] @ ''b=2'')) None
     \<lparr>global = [], sections = [(''s'', 0)], lines = [0, 1],
      formatting = \<lparr>lineBreak = Some LF, pretty = Some False\<rparr>,
      heap = [LineSection 1 ''s'' [(''a'', 1)] 2,
              LineValue 2 (Some ''s'') ''a'' (VNumber (Finite 1))]\<rparr> =
     Inr \<lparr>global = [], sections = [(''s'', 0), (''t'', 2)], lines = [0, 1, 2, 3],
          formatting = \<lparr>lineBreak = Some LF, pretty = Some False\<rparr>,
          heap = [LineSection 1 ''s'' [(''a'', 1)] 2,
                  LineValue 2 (Some ''s'') ''a'' (VNumber (Finite 1)),
                  LineSection 1 ''t'' [(''b'', 3)] 2,
                  LineValue 2 (Some ''t'') ''b'' (VNumber (Finite 2))]\<rparr> \<and>
   IniMap_set ''t'' (VString ''c'') (VNumber (Finite 3))
     \<lparr>global = [], sections = [(''s'', 0), (''t'', 2)], lines = [0, 1, 2, 3],
      formatting = \<lparr>lineBreak = Some LF, pretty = Some False\<rparr>,
      heap = [LineSection 1 ''s'' [(''a'', 1)] 2,
              LineValue 2 (Some ''s'') ''a'' (VNumber (Finite 1)),
              LineSection 1 ''t'' [(''b'', 3)] 2,
              LineValue 2 (Some ''t'') ''b'' (VNumber (Finite 2))]\<rparr> =
     \<lparr>global = [], sections = [(''s'', 0), (''t'', 2)], lines = [0, 1, 4, 2, 3],
      formatting = \<lparr>lineBreak = Some LF, pretty = Some False\<rparr>,
      heap = [LineSection 1 ''s'' [(''a'', 1)] 2,
              LineValue 2 (Some ''s'') ''a'' (VNumber (Finite 1)),
              LineSection 2 ''t'' [(''b'', 3), (''c'', 4)] 4,
              LineValue 3 (Some ''t'') ''b'' (VNumber (Finite 2)),
              LineValue 3 (Some ''t'') ''c'' (VNumber (Finite 3))]\<rparr> \<and>
   IniMap_set '''' (VString ''b'') (VNumber (Finite 1)) (new_IniMap no_formatting) =
     \<lparr>global = [], sections = [([], 0)], lines = [1, 0],
      formatting = \<lparr>lineBreak = None, pretty = None\<rparr>,
      heap = [LineSection 2 [] [(''b'', 1)] 3,
              LineValue 1 (Some []) ''b'' (VNumber (Finite 1))]\<rparr> \<and>
   IniMap_set '''' (VString ''c'') (VNumber (Finite 2))
     \<lparr>global = [], sections = [([], 0)], lines = [1, 0],
      formatting = \<lparr>lineBreak = None, pretty = None\<rparr>,
      heap = [LineSection 2 [] [(''b'', 1)] 3,
              LineValue 1 (Some []) ''b'' (VNumber (Finite 1))]\<rparr> =
     \<lparr>global = [], sections = [([], 0)], lines = [1, 2, 0],
      formatting = \<lparr>lineBreak = None, pretty = None\<rparr>,
      heap = [LineSection 3 [] [(''b'', 1), (''c'', 2)] 5,
              LineValue 1 (Some []) ''b'' (VNumber (Finite 1)),
              LineValue 2 (Some []) ''c'' (VNumber (Finite 2))]\<rparr> \<and>
   IniMap_set '''' (VString ''e'') (VNumber (Finite 3))
     (IniMap_set '''' (VString ''c'') (VNumber (Finite 2))
       (IniMap_set ''t'' (VString ''k'') (VNumber (Finite 1))
         (IniMap_set '''' (VString ''b'') (VNumber (Finite 1)) (new_IniMap no_formatting)))) =
     \<lparr>global = [], sections = [([], 0), (''t'', 2)], lines = [1, 4, 5, 0, 2, 3],
      formatting = \<lparr>lineBreak = None, pretty = None\<rparr>,
      heap = [LineSection 4 [] [(''b'', 1), (''c'', 4), (''e'', 5)] 7,
              LineValue 1 (Some []) ''b'' (VNumber (Finite 1)),
              LineSection 5 ''t'' [(''k'', 3)] 6,
              LineValue 6 (Some ''t'') ''k'' (VNumber (Finite 1)),
              LineValue 2 (Some []) ''c'' (VNumber (Finite 2)),
              LineValue 3 (Some []) ''e'' (VNumber (Finite 3))]\<rparr> \<and>
   numbered
     \<lparr>global = [], sections = [([], 0), (''t'', 2)], lines = [1, 4, 5, 0, 2, 3],
      formatting = \<lparr>lineBreak = None, pretty = None\<rparr>,
      heap = [LineSection 4 [] [(''b'', 1), (''c'', 4), (''e'', 5)] 7,
              LineValue 1 (Some []) ''b'' (VNumber (Finite 1)),
              LineSection 5 ''t'' [(''k'', 3)] 6,
              LineValue 6 (Some ''t'') ''k'' (VNumber (Finite 1)),
              LineValue 2 (Some []) ''c'' (VNumber (Finite 2)),
              LineValue 3 (Some []) ''e'' (VNumber (Finite 3))]\<rparr> \<and>
   IniMap_set ''t'' (VString ''d'') (VNumber (Finite 4))
     \<lparr>global = [], sections = [([], 0), (''t'', 2)], lines = [1, 4, 5, 0, 2, 3],
      formatting = \<lparr>lineBreak = None, pretty = None\<rparr>,
      heap = [LineSection 4 [] [(''b'', 1), (''c'', 4), (''e'', 5)] 7,
              LineValue 1 (Some []) ''b'' (VNumber (Finite 1)),
              LineSection 5 ''t'' [(''k'', 3)] 6,
              LineValue 6 (Some ''t'') ''k'' (VNumber (Finite 1)),
              LineValue 2 (Some []) ''c'' (VNumber (Finite 2)),
              LineValue 3 (Some []) ''e'' (VNumber (Finite 3))]\<rparr> =
     \<lparr>global = [], sections = [([], 0), (''t'', 2)], lines = [1, 4, 5, 0, 2, 3, 6],
      formatting = \<lparr>lineBreak = None, pretty = None\<rparr>,
      heap = [LineSection 4 [] [(''b'', 1), (''c'', 4), (''e'', 5)] 7,
              LineValue 1 (Some []) ''b'' (VNumber (Finite 1)),
              LineSection 5 ''t'' [(''k'', 3), (''d'', 6)] 7,
              LineValue 6 (Some ''t'') ''k'' (VNumber (Finite 1)),
              LineValue 2 (Some []) ''c'' (VNumber (Finite 2)),
              LineValue 3 (Some []) ''e'' (VNumber (Finite 3)),
              LineValue 7 (Some ''t'') ''d'' (VNumber (Finite 4))]\<rparr>"
proof -
  have 1: "map_of (sections (new_IniMap no_formatting)) ''s'' = None \<and>
      length (lines (new_IniMap no_formatting)) = 0 \<and>
      length (lines (IniMap_set ''s'' (VString ''k'') (VNumber (Finite 1))
        (new_IniMap no_formatting))) = 2"
    by code_simp
  let ?s = "\<lparr>global = [], sections = [(''s'', 0)], lines = [0, 1],
      formatting = \<lparr>lineBreak = Some LF, pretty = Some False\<rparr>,
      heap = [LineSection 1 ''s'' [(''a'', 1)] 2,
              LineValue 2 (Some ''s'') ''a'' (VNumber (Finite 1))]\<rparr>"
  let ?d = "\<lparr>global = [], sections = [(''s'', 0), (''t'', 2)], lines = [0, 1, 2, 3],
          formatting = \<lparr>lineBreak = Some LF, pretty = Some False\<rparr>,
          heap = [LineSection 1 ''s'' [(''a'', 1)] 2,
                  LineValue 2 (Some ''s'') ''a'' (VNumber (Finite 1)),
                  LineSection 1 ''t'' [(''b'', 3)] 2,
                  LineValue 2 (Some ''t'') ''b'' (VNumber (Finite 2))]\<rparr>"
  have 2: "parse (JString (''[t]'' @ [CHR 0x0A] @ ''b=2'')) None ?s = Inr ?d" by code_simp
  have 3: "IniMap_set ''t'' (VString ''c'') (VNumber (Finite 3)) ?d =
     \<lparr>global = [], sections = [(''s'', 0), (''t'', 2)], lines = [0, 1, 4, 2, 3],
      formatting = \<lparr>lineBreak = Some LF, pretty = Some False\<rparr>,
      heap = [LineSection 1 ''s'' [(''a'', 1)] 2,
              LineValue 2 (Some ''s'') ''a'' (VNumber (Finite 1)),
              LineSection 2 ''t'' [(''b'', 3), (''c'', 4)] 4,
              LineValue 3 (Some ''t'') ''b'' (VNumber (Finite 2)),
              LineValue 3 (Some ''t'') ''c'' (VNumber (Finite 3))]\<rparr>"
    by code_simp
  have 4: "IniMap_set '''' (VString ''c'') (VNumber (Finite 2))
     \<lparr>global = [], sections = [([], 0)], lines = [1, 0],
      formatting = \<lparr>lineBreak = None, pretty = None\<rparr>,
      heap = [LineSection 2 [] [(''b'', 1)] 3,
              LineValue 1 (Some []) ''b'' (VNumber (Finite 1))]\<rparr> =
     \<lparr>global = [], sections = [([], 0)], lines = [1, 2, 0],
      formatting = \<lparr>lineBreak = None, pretty = None\<rparr>,
      heap = [LineSection 3 [] [(''b'', 1), (''c'', 2)] 5,
              LineValue 1 (Some []) ''b'' (VNumber (Finite 1)),
              LineValue 2 (Some []) ''c'' (VNumber (Finite 2))]\<rparr>"
    by code_simp
  let ?x = "\<lparr>global = [], sections = [([], 0), (''t'', 2)], lines = [1, 4, 5, 0, 2, 3],
      formatting = \<lparr>lineBreak = None, pretty = None\<rparr>,
      heap = [LineSection 4 [] [(''b'', 1), (''c'', 4), (''e'', 5)] 7,
              LineValue 1 (Some []) ''b'' (VNumber (Finite 1)),
              LineSection 5 ''t'' [(''k'', 3)] 6,
              LineValue 6 (Some ''t'') ''k'' (VNumber (Finite 1)),
              LineValue 2 (Some []) ''c'' (VNumber (Finite 2)),
              LineValue 3 (Some []) ''e'' (VNumber (Finite 3))]\<rparr>"
  have 7: "parse (JString (''[s]'' @ [CHR 0x0A] @ ''a=1'')) None (new_IniMap no_formatting) =
      Inr ?s"
    by code_simp
  have 8: "IniMap_set '''' (VString ''b'') (VNumber (Finite 1)) (new_IniMap no_formatting) =
     \<lparr>global = [], sections = [([], 0)], lines = [1, 0],
      formatting = \<lparr>lineBreak = None, pretty = None\<rparr>,
      heap = [LineSection 2 [] [(''b'', 1)] 3,
              LineValue 1 (Some []) ''b'' (VNumber (Finite 1))]\<rparr>"
    by code_simp
  have 9: "IniMap_set '''' (VString ''e'') (VNumber (Finite 3))
     (IniMap_set '''' (VString ''c'') (VNumber (Finite 2))
       (IniMap_set ''t'' (VString ''k'') (VNumber (Finite 1))
         (IniMap_set '''' (VString ''b'') (VNumber (Finite 1)) (new_IniMap no_formatting)))) =
     ?x"
    by code_simp
  have 5: "numbered ?x" by code_simp
  have 6: "IniMap_set ''t'' (VString ''d'') (VNumber (Finite 4)) ?x =
     \<lparr>global = [], sections = [([], 0), (''t'', 2)], lines = [1, 4, 5, 0, 2, 3, 6],
      formatting = \<lparr>lineBreak = None, pretty = None\<rparr>,
      heap = [LineSection 4 [] [(''b'', 1), (''c'', 4), (''e'', 5)] 7,
              LineValue 1 (Some []) ''b'' (VNumber (Finite 1)),
              LineSection 5 ''t'' [(''k'', 3), (''d'', 6)] 7,
              LineValue 6 (Some ''t'') ''k'' (VNumber (Finite 1)),
              LineValue 2 (Some []) ''c'' (VNumber (Finite 2)),
              LineValue 3 (Some []) ''e'' (VNumber (Finite 3)),
              LineValue 7 (Some ''t'') ''d'' (VNumber (Finite 4))]\<rparr>"
    by code_simp
  from 1 2 3 4 5 6 7 8 9 show ?thesis by blast
qed
end
